theory Spec2Isabelle
  imports Main
begin

section \<open>JavaScript values\<close>

text \<open>
  The engine and the action manager carry values of TypeScript type \<open>any\<close>. They are
  modelled as trees: a property bag is an association list in property order, a function
  object is opaque and known by a name. Numbers are only carried, never computed with.
\<close>

datatype jsval =
    Undefined
  | Null
  | Bool bool
  | Num int
  | Str string
  | Arr "jsval list"
  | Obj "(string \<times> jsval) list"
  | Fn string

text \<open>
  What a \<open>throw\<close> carries: an \<open>Error\<close> instance with its message, or any other
  value. The two are told apart by \<open>error instanceof Error\<close> in the source.
\<close>

datatype thrown = JsError string | JsThrown jsval

text \<open>Reading a property of a property bag: a missing key reads \<open>undefined\<close>.\<close>

definition obj_get :: "(string \<times> jsval) list \<Rightarrow> string \<Rightarrow> jsval" where
  "obj_get kvs k = (case map_of kvs k of None \<Rightarrow> Undefined | Some v \<Rightarrow> v)"

section \<open>Strings\<close>

text \<open>
  A string is a list of Isabelle characters: the model covers the JavaScript strings
  whose code units are below 256. Of the source's string operations it needs
  \<open>s.startsWith(k)\<close>, \<open>s.includes(k)\<close> and \<open>s.trim()\<close>.
\<close>

fun starts_with :: "string \<Rightarrow> string \<Rightarrow> bool" where
  "starts_with s [] = True"
| "starts_with [] (k # ks) = False"
| "starts_with (c # cs) (k # ks) = (c = k \<and> starts_with cs ks)"

fun str_includes :: "string \<Rightarrow> string \<Rightarrow> bool" where
  "str_includes [] k = (k = [])"
| "str_includes (c # cs) k = (starts_with (c # cs) k \<or> str_includes cs k)"

text \<open>
  \<open>String.prototype.trim\<close> removes white space and line terminators at both ends. Of
  the code units below 256 these are tab, line feed, vertical tab, form feed, carriage
  return, space and the no-break space.
\<close>

definition is_space :: "char \<Rightarrow> bool" where
  "is_space c = (c \<in> set [CHR 0x09, CHR 0x0A, CHR 0x0B, CHR 0x0C, CHR 0x0D, CHR 0x20, CHR 0xA0])"

definition trim :: "string \<Rightarrow> string" where
  "trim s = rev (dropWhile is_space (rev (dropWhile is_space s)))"

text \<open>The class \<open>\w\<close> of a regular expression without the unicode flag.\<close>

definition is_word :: "char \<Rightarrow> bool" where
  "is_word c =
     (let n = of_char c :: nat
      in (48 \<le> n \<and> n \<le> 57) \<or> (65 \<le> n \<and> n \<le> 90) \<or> (97 \<le> n \<and> n \<le> 122) \<or> n = 95)"

section \<open>ExpressionEngine\<close>

record evaluation_context =
  widgets :: jsval
  actions :: jsval
  page :: jsval
  utils :: jsval
  store :: jsval

text \<open>\<open>Partial<EvaluationContext>\<close>: a key is absent (\<open>None\<close>) or present with a value.\<close>

record partial_context =
  p_widgets :: "jsval option"
  p_actions :: "jsval option"
  p_page :: "jsval option"
  p_utils :: "jsval option"
  p_store :: "jsval option"

record cache_entry =
  entry_value :: jsval
  entry_deps :: "string set"

text \<open>
  The engine object: its two private fields (\<open>engine_context\<close> is the field
  \<open>context\<close>), and two components that make the effects of running an expression
  visible. \<open>world\<close> is whatever state outside the engine an expression can reach through
  the utilities (a counter, the clock); \<open>js_log\<close> lists, in order, every source text
  that was handed to the \<open>Function\<close> constructor.
\<close>

record 'w engine =
  engine_context :: evaluation_context
  cache :: "string \<Rightarrow> cache_entry option"
  js_log :: "string list"
  world :: 'w

text \<open>
  The JavaScript engine is a parameter. \<open>evaluate\<close> splices the text \<open>e\<close> into the body
  \<^verbatim>\<open>'use strict'; try { return (e); } catch (error) { C }\<close>
  of a function of the five namespaces, where \<open>C\<close> is \<open>throw error;\<close> when
  \<open>throwOnError\<close> is set and \<open>return undefined;\<close> otherwise. For a text \<open>e\<close> the engine
  says what the \<open>Function\<close> constructor makes of this body:
  \<^item> a \<open>SyntaxError\<close> thrown by the constructor. It does not depend on the flag: the
    generated \<open>catch\<close> clause ends the body, so it belongs to a \<open>try\<close> statement of the
    body's top level, where both forms of \<open>C\<close> are allowed;
  \<^item> \<open>Expression f\<close>: \<open>e\<close> is one expression between the parentheses, and \<open>f\<close> evaluates
    it. The generated \<open>try\<close> and \<open>catch\<close> then enclose it, which \<open>evaluate\<close> below
    writes out;
  \<^item> \<open>Escaping g\<close>: \<open>e\<close> is no expression, yet the body is one the constructor accepts,
    because \<open>e\<close> closes the generated \<open>try\<close> block and opens one of its own before the
    generated \<open>catch\<close>. \<open>g\<close> is what the whole function does, for each value of the
    flag; what it throws is not caught inside the function.
  Called with the five namespaces, a function returns a value or throws; it may change
  what the namespaces hold and the world. It does not call the engine it is evaluated by:
  a utility that itself calls \<open>evaluate\<close>, \<open>updateContext\<close> or \<open>clearCache\<close> is not
  covered.
\<close>

type_synonym 'w js_function = "evaluation_context \<Rightarrow> 'w \<Rightarrow> (thrown + jsval) \<times> evaluation_context \<times> 'w"

datatype 'w compiled = Expression "'w js_function" | Escaping "bool \<Rightarrow> 'w js_function"

type_synonym 'w js_engine = "string \<Rightarrow> thrown + 'w compiled"

text \<open>The constructor; \<open>u\<close> is the object \<open>createUtilsObject\<close> returns.\<close>

definition new_engine :: "jsval \<Rightarrow> 'w \<Rightarrow> 'w engine" where
  "new_engine u w =
     \<lparr> engine_context = \<lparr> widgets = Obj [], actions = Obj [], page = Obj [], utils = u, store = Obj [] \<rparr>,
       cache = (\<lambda>k. None),
       js_log = [],
       world = w \<rparr>"

definition clearCache :: "'w engine \<Rightarrow> 'w engine" where
  "clearCache s = s\<lparr> cache := (\<lambda>k. None) \<rparr>"

text \<open>The object spread \<open>{...this.context, ...context}\<close>: a key of the second object wins.\<close>

definition spread :: "evaluation_context \<Rightarrow> partial_context \<Rightarrow> evaluation_context" where
  "spread c p =
     \<lparr> widgets = (case p_widgets p of None \<Rightarrow> widgets c | Some v \<Rightarrow> v),
       actions = (case p_actions p of None \<Rightarrow> actions c | Some v \<Rightarrow> v),
       page = (case p_page p of None \<Rightarrow> page c | Some v \<Rightarrow> v),
       utils = (case p_utils p of None \<Rightarrow> utils c | Some v \<Rightarrow> v),
       store = (case p_store p of None \<Rightarrow> store c | Some v \<Rightarrow> v) \<rparr>"

definition updateContext :: "'w engine \<Rightarrow> partial_context \<Rightarrow> 'w engine" where
  "updateContext s p = clearCache (s\<lparr> engine_context := spread (engine_context s) p \<rparr>)"

definition forbidden :: "string list" where
  "forbidden =
     [''eval'', ''Function'', ''constructor'', ''prototype'', ''__proto__'', ''window'',
      ''document'', ''global'', ''process'', ''require'', ''import'', ''fetch'',
      ''XMLHttpRequest'']"

text \<open>The loop over \<open>forbidden\<close> throws at the first keyword the expression includes.\<close>

definition sanitizeExpression :: "string \<Rightarrow> thrown + string" where
  "sanitizeExpression expression =
     (case find (str_includes expression) forbidden of
        Some keyword \<Rightarrow> Inl (JsError (''Forbidden keyword in expression: '' @ keyword))
      | None \<Rightarrow> Inr expression)"

text \<open>
  \<open>evaluate\<close>. \<open>Inl\<close> is an exception that reaches the caller. For an expression, the
  inner \<open>catch\<close> of the constructed function rethrows when \<open>throwOnError\<close> is set and
  returns \<open>undefined\<close> otherwise; what the function returns is cached, this \<open>undefined\<close>
  like any other result. The outer \<open>catch\<close> sees the errors of \<open>sanitizeExpression\<close>
  and of the \<open>Function\<close> constructor, the rethrown ones, and whatever a function throws
  past the generated \<open>catch\<close>; it rethrows or returns \<open>undefined\<close>, and never caches.
  \<open>console.warn\<close> is not modelled.
\<close>

definition evaluate :: "'w js_engine \<Rightarrow> 'w engine \<Rightarrow> string \<Rightarrow> bool \<Rightarrow> (thrown + jsval) \<times> 'w engine" where
  "evaluate js s expression throwOnError =
     (if expression = [] then (Inr (Str []), s)
      else case cache s expression of
        Some entry \<Rightarrow> (Inr (entry_value entry), s)
      | None \<Rightarrow>
          (case sanitizeExpression expression of
             Inl err \<Rightarrow> (if throwOnError then Inl err else Inr Undefined, s)
           | Inr sanitizedExpression \<Rightarrow>
               (let s1 = s\<lparr> js_log := js_log s @ [sanitizedExpression] \<rparr>
                in case js sanitizedExpression of
                  Inl err \<Rightarrow> (if throwOnError then Inl err else Inr Undefined, s1)
                | Inr (Expression fn) \<Rightarrow>
                    (case fn (engine_context s1) (world s1) of
                       (Inl err, c, w) \<Rightarrow>
                         (let s2 = s1\<lparr> engine_context := c, world := w \<rparr>
                          in if throwOnError then (Inl err, s2)
                             else (Inr Undefined,
                                   s2\<lparr> cache := (cache s2)(expression \<mapsto>
                                          \<lparr> entry_value = Undefined, entry_deps = {} \<rparr>) \<rparr>))
                     | (Inr result, c, w) \<Rightarrow>
                         (let s2 = s1\<lparr> engine_context := c, world := w \<rparr>
                          in (Inr result,
                              s2\<lparr> cache := (cache s2)(expression \<mapsto>
                                     \<lparr> entry_value = result, entry_deps = {} \<rparr>) \<rparr>)))
                | Inr (Escaping fn) \<Rightarrow>
                    (case fn throwOnError (engine_context s1) (world s1) of
                       (Inl err, c, w) \<Rightarrow>
                         (if throwOnError then Inl err else Inr Undefined,
                          s1\<lparr> engine_context := c, world := w \<rparr>)
                     | (Inr result, c, w) \<Rightarrow>
                         (let s2 = s1\<lparr> engine_context := c, world := w \<rparr>
                          in (Inr result,
                              s2\<lparr> cache := (cache s2)(expression \<mapsto>
                                     \<lparr> entry_value = result, entry_deps = {} \<rparr>) \<rparr>))))))"

text \<open>
  The states an engine can be in: the cache is private, so it is written by \<open>evaluate\<close>
  and emptied by \<open>clearCache\<close> and \<open>updateContext\<close> only. \<open>evaluateTemplate\<close> and
  \<open>validateExpression\<close> change the engine through \<open>evaluate\<close> alone. The host shares
  the objects of the context with the engine and owns the world, so it can change both
  at any time.
\<close>

inductive reachable :: "'w js_engine \<Rightarrow> 'w engine \<Rightarrow> bool" for js :: "'w js_engine" where
  reach_new: "reachable js (new_engine u w)"
| reach_evaluate: "reachable js s \<Longrightarrow> reachable js (snd (evaluate js s expression throwOnError))"
| reach_updateContext: "reachable js s \<Longrightarrow> reachable js (updateContext s p)"
| reach_clearCache: "reachable js s \<Longrightarrow> reachable js (clearCache s)"
| reach_host: "reachable js s \<Longrightarrow> reachable js (s\<lparr> engine_context := c, world := w \<rparr>)"

subsection \<open>Expression markers\<close>

text \<open>
  The regular expression \<open>/\{\{([^}]+)\}\}/\<close> at one position of the text: two opening
  braces, the longest non-empty run of characters other than \<open>}\<close>, two closing braces.
  A shorter run cannot match, since what follows it is not a closing brace. The result is
  the capture group and the text after the match.
\<close>

definition match_marker :: "string \<Rightarrow> (string \<times> string) option" where
  "match_marker s =
     (if starts_with s ''{{'' then
        (let body = drop 2 s;
             inner = takeWhile (\<lambda>c. c \<noteq> CHR ''}'') body;
             rest = dropWhile (\<lambda>c. c \<noteq> CHR ''}'') body
         in if inner \<noteq> [] \<and> starts_with rest ''}}'' then Some (inner, drop 2 rest) else None)
      else None)"

text \<open>\<open>regex.exec\<close>: the leftmost position with a match.\<close>

fun find_marker :: "string \<Rightarrow> (string \<times> string) option" where
  "find_marker [] = None"
| "find_marker (c # cs) =
     (case match_marker (c # cs) of Some m \<Rightarrow> Some m | None \<Rightarrow> find_marker cs)"

lemma match_marker_shorter: "match_marker s = Some (inner, rest) \<Longrightarrow> length rest < length s"
proof -
  assume m: "match_marker s = Some (inner, rest)"
  let ?body = "drop 2 s"
  from m have r: "rest = drop 2 (dropWhile (\<lambda>c. c \<noteq> CHR ''}'') ?body)" and s: "starts_with s ''{{''"
    by (auto simp: match_marker_def Let_def split: if_splits)
  from s have "2 \<le> length s" by (cases s; cases "tl s") auto
  moreover have "length (dropWhile (\<lambda>c. c \<noteq> CHR ''}'') ?body) \<le> length ?body"
    by (rule length_dropWhile_le)
  ultimately show ?thesis using r by simp
qed

lemma find_marker_shorter: "find_marker s = Some (inner, rest) \<Longrightarrow> length rest < length s"
proof (induction s)
  case Nil
  then show ?case by simp
next
  case (Cons c cs)
  show ?case
  proof (cases "match_marker (c # cs)")
    case None
    then have "find_marker cs = Some (inner, rest)" using Cons.prems by simp
    then have "length rest < length cs" by (rule Cons.IH)
    then show ?thesis by simp
  next
    case (Some m)
    then have "match_marker (c # cs) = Some (inner, rest)" using Cons.prems by simp
    then show ?thesis by (rule match_marker_shorter)
  qed
qed

text \<open>
  The loop of \<open>extractExpressions\<close>: the regular expression is global and new, so each
  \<open>exec\<close> searches from the end of the match before.
\<close>

function extractExpressions :: "string \<Rightarrow> string list" where
  "extractExpressions text =
     (case find_marker text of
        None \<Rightarrow> []
      | Some (inner, rest) \<Rightarrow> trim inner # extractExpressions rest)"
  by pat_completeness auto
termination
  by (relation "measure length") (auto dest: find_marker_shorter)

definition hasExpression :: "string \<Rightarrow> bool" where
  "hasExpression text = (find_marker text \<noteq> None)"

subsection \<open>Dependencies\<close>

text \<open>
  A regular expression \<open>/ns\.(\w+)/\<close> at one position, where \<open>p\<close> is the literal part with
  its dot: \<open>p\<close>, then the longest non-empty run of word characters. The result is the
  capture group and the text after the match.
\<close>

definition match_ref :: "string \<Rightarrow> string \<Rightarrow> (string \<times> string) option" where
  "match_ref p s =
     (if starts_with s p then
        (let r = drop (length p) s; w = takeWhile is_word r
         in if w \<noteq> [] then Some (w, dropWhile is_word r) else None)
      else None)"

fun find_ref :: "string \<Rightarrow> string \<Rightarrow> (string \<times> string) option" where
  "find_ref p [] = None"
| "find_ref p (c # cs) =
     (case match_ref p (c # cs) of Some m \<Rightarrow> Some m | None \<Rightarrow> find_ref p cs)"

lemma match_ref_shorter: "match_ref p s = Some (w, rest) \<Longrightarrow> length rest < length s"
proof -
  assume m: "match_ref p s = Some (w, rest)"
  let ?r = "drop (length p) s"
  from m have w: "w = takeWhile is_word ?r" "w \<noteq> []" and r: "rest = dropWhile is_word ?r"
    by (auto simp: match_ref_def Let_def split: if_splits)
  have "length w + length rest = length ?r"
    unfolding w r by (metis length_append takeWhile_dropWhile_id)
  moreover have "0 < length w" using w(2) by simp
  moreover have "length ?r \<le> length s" by simp
  ultimately show ?thesis by linarith
qed

lemma find_ref_shorter: "find_ref p s = Some (w, rest) \<Longrightarrow> length rest < length s"
proof (induction s)
  case Nil
  then show ?case by simp
next
  case (Cons c cs)
  show ?case
  proof (cases "match_ref p (c # cs)")
    case None
    then have "find_ref p cs = Some (w, rest)" using Cons.prems by simp
    then have "length rest < length cs" by (rule Cons.IH)
    then show ?thesis by simp
  next
    case (Some m)
    then have "match_ref p (c # cs) = Some (w, rest)" using Cons.prems by simp
    then show ?thesis by (rule match_ref_shorter)
  qed
qed

text \<open>One \<open>while\<close> loop of \<open>getDependencies\<close>: each match pushes \<open>p\<close> and its group.\<close>

function scan_refs :: "string \<Rightarrow> string \<Rightarrow> string list" where
  "scan_refs p text =
     (case find_ref p text of
        None \<Rightarrow> []
      | Some (w, rest) \<Rightarrow> (p @ w) # scan_refs p rest)"
  by pat_completeness auto
termination
  by (relation "measure (\<lambda>(p, text). length text)") (auto dest: find_ref_shorter)

text \<open>A \<open>Set\<close> keeps its elements in the order they were first added.\<close>

definition Set_add :: "'a list \<Rightarrow> 'a \<Rightarrow> 'a list" where
  "Set_add xs x = (if x \<in> set xs then xs else xs @ [x])"

definition new_Set :: "'a list \<Rightarrow> 'a list" where
  "new_Set xs = foldl Set_add [] xs"

definition getDependencies :: "string \<Rightarrow> string list" where
  "getDependencies expression =
     new_Set (scan_refs ''widgets.'' expression @ scan_refs ''actions.'' expression @
              scan_refs ''page.'' expression)"

section \<open>ActionManager\<close>

record action_result =
  success :: bool
  data :: "jsval option"
  error :: "string option"

text \<open>The tag of an action; \<open>OtherType\<close> is a tag outside the union, which only an
  untyped caller can register and the \<open>default\<close> branch of \<open>executeAction\<close> answers.\<close>

datatype action_type =
    Http | Graphql | UpdateWidget | Navigate | OpenModal | CloseModal | ShowAlert
  | ShowToast | LocalStorage | CopyToClipboard | DownloadFile | RunJS | OtherType string

record action_definition =
  action_id :: string
  action_type :: action_type
  config :: "(string \<times> jsval) list"

text \<open>
  Calls that leave the manager are recorded in order: each entry into \<open>run\<close>, each call
  of a listener and each call of a host callback.
\<close>

datatype event =
    RunCalled string
  | ListenerCalled nat action_result
  | WidgetUpdateCalled jsval jsval
  | ModalCalled jsval string

text \<open>
  The manager object. \<open>am_actions\<close> is the field \<open>actions\<close> of the source (the name is
  taken by the namespace of the evaluation context). A listener is known by a number, its
  identity in the \<open>Set\<close>. A host callback is given by what it throws, if anything.
  \<open>expressionEngine\<close> is the engine the module imports, \<open>localStorage\<close> the browser's
  store, taken to accept every write.
\<close>

record 'w manager =
  am_actions :: "string \<rightharpoonup> action_definition"
  listeners :: "string \<rightharpoonup> nat list"
  results :: "string \<rightharpoonup> action_result"
  widgetUpdateCallback :: "(jsval \<Rightarrow> jsval \<Rightarrow> thrown option) option"
  navigationCallback :: "(jsval \<Rightarrow> jsval \<Rightarrow> thrown option) option"
  modalCallback :: "(jsval \<Rightarrow> string \<Rightarrow> thrown option) option"
  expressionEngine :: "'w engine"
  localStorage :: "string \<rightharpoonup> string"
  events :: "event list"

text \<open>
  What the manager takes from its host: the JavaScript engine, the built-ins \<open>String\<close>,
  \<open>JSON.stringify\<close> (\<open>None\<close> when it returns \<open>undefined\<close>) and \<open>JSON.parse\<close>, what each
  listener throws when called, what \<open>evaluate\<close> does with a \<open>code\<close> that is no string, and
  the seven executors whose work is done by browser globals (\<open>fetch\<close>, \<open>window\<close>, \<open>alert\<close>,
  \<open>console\<close>, \<open>navigator\<close>, \<open>document\<close>): \<open>http\<close>, \<open>graphql\<close>, \<open>navigate\<close>, \<open>showAlert\<close>,
  \<open>showToast\<close>, \<open>copyToClipboard\<close> and \<open>downloadFile\<close>. Such an executor reads the manager
  and may return any result or throw; it evaluates templates, so it may change the engine.
  A listener only observes: it does not call back into the manager.
\<close>

record 'w host =
  js_engine :: "'w js_engine"
  js_String :: "jsval \<Rightarrow> string"
  JSON_stringify :: "jsval \<Rightarrow> string option"
  JSON_parse :: "string \<Rightarrow> thrown + jsval"
  listener_fn :: "nat \<Rightarrow> action_result \<Rightarrow> thrown option"
  evaluate_untyped :: "jsval \<Rightarrow> 'w engine \<Rightarrow> (thrown + jsval) \<times> 'w engine"
  browser_executor :: "action_definition \<Rightarrow> jsval \<Rightarrow> 'w manager \<Rightarrow> (thrown + action_result) \<times> 'w engine"

definition new_manager :: "'w engine \<Rightarrow> (string \<rightharpoonup> string) \<Rightarrow> 'w manager" where
  "new_manager eng storage =
     \<lparr> am_actions = Map.empty, listeners = Map.empty, results = Map.empty,
       widgetUpdateCallback = None, navigationCallback = None, modalCallback = None,
       expressionEngine = eng, localStorage = storage, events = [] \<rparr>"

definition registerAction :: "'w manager \<Rightarrow> action_definition \<Rightarrow> 'w manager" where
  "registerAction s action = s\<lparr> am_actions := (am_actions s)(action_id action \<mapsto> action) \<rparr>"

definition unregisterAction :: "'w manager \<Rightarrow> string \<Rightarrow> 'w manager" where
  "unregisterAction s actionId =
     s\<lparr> am_actions := (am_actions s)(actionId := None),
        listeners := (listeners s)(actionId := None),
        results := (results s)(actionId := None) \<rparr>"

definition onWidgetUpdate :: "'w manager \<Rightarrow> (jsval \<Rightarrow> jsval \<Rightarrow> thrown option) \<Rightarrow> 'w manager" where
  "onWidgetUpdate s callback = s\<lparr> widgetUpdateCallback := Some callback \<rparr>"

definition onNavigation :: "'w manager \<Rightarrow> (jsval \<Rightarrow> jsval \<Rightarrow> thrown option) \<Rightarrow> 'w manager" where
  "onNavigation s callback = s\<lparr> navigationCallback := Some callback \<rparr>"

definition onModal :: "'w manager \<Rightarrow> (jsval \<Rightarrow> string \<Rightarrow> thrown option) \<Rightarrow> 'w manager" where
  "onModal s callback = s\<lparr> modalCallback := Some callback \<rparr>"

definition addListener :: "'w manager \<Rightarrow> string \<Rightarrow> nat \<Rightarrow> 'w manager" where
  "addListener s actionId listener =
     s\<lparr> listeners := (listeners s)(actionId \<mapsto>
          Set_add (case listeners s actionId of None \<Rightarrow> [] | Some ls \<Rightarrow> ls) listener) \<rparr>"

definition removeListener :: "'w manager \<Rightarrow> string \<Rightarrow> nat \<Rightarrow> 'w manager" where
  "removeListener s actionId listener =
     (case listeners s actionId of
        None \<Rightarrow> s
      | Some ls \<Rightarrow> s\<lparr> listeners := (listeners s)(actionId \<mapsto> removeAll listener ls) \<rparr>)"

definition getResult :: "'w manager \<Rightarrow> string \<Rightarrow> action_result option" where
  "getResult s actionId = results s actionId"

text \<open>\<open>listeners.forEach(listener => listener(result))\<close>: in insertion order, up to the
  first listener that throws.\<close>

fun call_listeners :: "'w host \<Rightarrow> nat list \<Rightarrow> action_result \<Rightarrow> event list \<Rightarrow> thrown option \<times> event list" where
  "call_listeners h [] result evs = (None, evs)"
| "call_listeners h (l # ls) result evs =
     (case listener_fn h l result of
        Some e \<Rightarrow> (Some e, evs @ [ListenerCalled l result])
      | None \<Rightarrow> call_listeners h ls result (evs @ [ListenerCalled l result]))"

definition notifyListeners :: "'w host \<Rightarrow> 'w manager \<Rightarrow> string \<Rightarrow> action_result \<Rightarrow> thrown option \<times> 'w manager" where
  "notifyListeners h s actionId result =
     (case listeners s actionId of
        None \<Rightarrow> (None, s)
      | Some ls \<Rightarrow>
          (case call_listeners h ls result (events s) of
             (t, evs) \<Rightarrow> (t, s\<lparr> events := evs \<rparr>)))"

subsection \<open>Executors\<close>

text \<open>Decimal digits of an array index.\<close>

fun decimal :: "nat \<Rightarrow> string" where
  "decimal n =
     (if n < 10 then [char_of (48 + n)] else decimal (n div 10) @ [char_of (48 + n mod 10)])"

text \<open>
  \<open>Object.entries\<close>: a \<open>TypeError\<close> on \<open>undefined\<close> and \<open>null\<close>, the own properties of
  an object in order, the indexed elements of an array or a string, nothing for another
  primitive or a function.
\<close>

definition Object_entries :: "jsval \<Rightarrow> thrown + (string \<times> jsval) list" where
  "Object_entries v =
     (case v of
        Undefined \<Rightarrow> Inl (JsError ''Cannot convert undefined or null to object'')
      | Null \<Rightarrow> Inl (JsError ''Cannot convert undefined or null to object'')
      | Obj kvs \<Rightarrow> Inr kvs
      | Arr vs \<Rightarrow> Inr (zip (map decimal [0..<length vs]) vs)
      | Str cs \<Rightarrow> Inr (zip (map decimal [0..<length cs]) (map (\<lambda>c. Str [c]) cs))
      | Bool b \<Rightarrow> Inr []
      | Num n \<Rightarrow> Inr []
      | Fn f \<Rightarrow> Inr [])"

text \<open>Writing an own property: an existing key keeps its place, a new one goes last.\<close>

fun obj_put :: "(string \<times> jsval) list \<Rightarrow> string \<Rightarrow> jsval \<Rightarrow> (string \<times> jsval) list" where
  "obj_put [] k v = [(k, v)]"
| "obj_put ((k', v') # kvs) k v = (if k' = k then (k, v) # kvs else (k', v') # obj_put kvs k v)"

text \<open>
  The assignment \<open>obj[key] = v\<close> on an object made by \<open>{}\<close>. It writes an own property,
  but for the key \<open>__proto__\<close>: that assignment calls the setter of \<open>Object.prototype\<close>,
  which replaces the prototype when \<open>v\<close> is an object or \<open>null\<close> and does nothing
  otherwise, and the object gets no own property. Prototypes are not part of the values
  of the model, which hold own properties only.
\<close>

definition obj_set :: "(string \<times> jsval) list \<Rightarrow> string \<Rightarrow> jsval \<Rightarrow> (string \<times> jsval) list" where
  "obj_set kvs k v = (if k = ''__proto__'' then kvs else obj_put kvs k v)"

text \<open>The text of \<open>value\<close> when \<open>typeof value === 'string' && hasExpression(value)\<close>.\<close>

definition expression_text :: "jsval \<Rightarrow> string option" where
  "expression_text v = (case v of Str text \<Rightarrow> if hasExpression text then Some text else None | _ \<Rightarrow> None)"

text \<open>The loop of \<open>executeUpdateWidgetAction\<close> over the entries of \<open>updates\<close>.\<close>

fun evaluate_updates ::
  "'w js_engine \<Rightarrow> 'w engine \<Rightarrow> (string \<times> jsval) list \<Rightarrow> (string \<times> jsval) list \<Rightarrow>
   (thrown + (string \<times> jsval) list) \<times> 'w engine" where
  "evaluate_updates js eng [] evaluatedUpdates = (Inr evaluatedUpdates, eng)"
| "evaluate_updates js eng ((key, v) # rest) evaluatedUpdates =
     (case expression_text v of
        Some text \<Rightarrow>
          (case evaluate js eng text False of
             (Inl e, eng1) \<Rightarrow> (Inl e, eng1)
           | (Inr x, eng1) \<Rightarrow> evaluate_updates js eng1 rest (obj_set evaluatedUpdates key x))
      | None \<Rightarrow> evaluate_updates js eng rest (obj_set evaluatedUpdates key v))"

definition executeUpdateWidgetAction ::
  "'w host \<Rightarrow> 'w manager \<Rightarrow> action_definition \<Rightarrow> jsval \<Rightarrow> (thrown + action_result) \<times> 'w manager" where
  "executeUpdateWidgetAction h s action params =
     (let widgetId = obj_get (config action) ''widgetId'';
          updates = obj_get (config action) ''updates''
      in case Object_entries updates of
        Inl e \<Rightarrow> (Inl e, s)
      | Inr entries \<Rightarrow>
          (case evaluate_updates (js_engine h) (expressionEngine s) entries [] of
             (Inl e, eng) \<Rightarrow> (Inl e, s\<lparr> expressionEngine := eng \<rparr>)
           | (Inr evaluatedUpdates, eng) \<Rightarrow>
               (let s1 = s\<lparr> expressionEngine := eng \<rparr>;
                    result = \<lparr> success = True,
                               data = Some (Obj [(''widgetId'', widgetId),
                                                 (''updates'', Obj evaluatedUpdates)]),
                               error = None \<rparr>
                in case widgetUpdateCallback s1 of
                  None \<Rightarrow> (Inr result, s1)
                | Some callback \<Rightarrow>
                    (let s2 = s1\<lparr> events := events s1 @
                                   [WidgetUpdateCalled widgetId (Obj evaluatedUpdates)] \<rparr>
                     in case callback widgetId (Obj evaluatedUpdates) of
                       Some e \<Rightarrow> (Inl e, s2)
                     | None \<Rightarrow> (Inr result, s2)))))"

definition executeModalAction ::
  "'w host \<Rightarrow> 'w manager \<Rightarrow> action_definition \<Rightarrow> string \<Rightarrow> (thrown + action_result) \<times> 'w manager" where
  "executeModalAction h s action modalAction =
     (let modalId = obj_get (config action) ''modalId'';
          result = \<lparr> success = True,
                     data = Some (Obj [(''modalId'', modalId), (''action'', Str modalAction)]),
                     error = None \<rparr>
      in case modalCallback s of
        None \<Rightarrow> (Inr result, s)
      | Some callback \<Rightarrow>
          (let s1 = s\<lparr> events := events s @ [ModalCalled modalId modalAction] \<rparr>
           in case callback modalId modalAction of
             Some e \<Rightarrow> (Inl e, s1)
           | None \<Rightarrow> (Inr result, s1)))"

text \<open>\<open>setItem\<close> stores the string form of its arguments.\<close>

definition executeLocalStorageAction ::
  "'w host \<Rightarrow> 'w manager \<Rightarrow> action_definition \<Rightarrow> jsval \<Rightarrow> (thrown + action_result) \<times> 'w manager" where
  "executeLocalStorageAction h s action params =
     (let operation = obj_get (config action) ''operation'';
          key = obj_get (config action) ''key'';
          v = obj_get (config action) ''value''
      in if operation = Str ''set'' then
           (Inr \<lparr> success = True, data = Some (Obj [(''key'', key), (''value'', v)]), error = None \<rparr>,
            s\<lparr> localStorage := (localStorage s)(js_String h key \<mapsto>
                 (case JSON_stringify h v of None \<Rightarrow> ''undefined'' | Some t \<Rightarrow> t)) \<rparr>)
         else if operation = Str ''get'' then
           (case localStorage s (js_String h key) of
              None \<Rightarrow> (Inr \<lparr> success = True, data = Some Null, error = None \<rparr>, s)
            | Some storedValue \<Rightarrow>
                if storedValue = [] then (Inr \<lparr> success = True, data = Some Null, error = None \<rparr>, s)
                else (case JSON_parse h storedValue of
                        Inl e \<Rightarrow> (Inl e, s)
                      | Inr parsed \<Rightarrow> (Inr \<lparr> success = True, data = Some parsed, error = None \<rparr>, s)))
         else if operation = Str ''remove'' then
           (Inr \<lparr> success = True, data = Some (Obj [(''key'', key)]), error = None \<rparr>,
            s\<lparr> localStorage := (localStorage s)(js_String h key := None) \<rparr>)
         else if operation = Str ''clear'' then
           (Inr \<lparr> success = True, data = None, error = None \<rparr>, s\<lparr> localStorage := Map.empty \<rparr>)
         else (Inl (JsError (''Unknown localStorage operation: '' @ js_String h operation)), s))"

text \<open>The message of a caught value: \<open>error instanceof Error ? error.message : 'Unknown error'\<close>.\<close>

definition error_message :: "thrown \<Rightarrow> string" where
  "error_message e = (case e of JsError m \<Rightarrow> m | JsThrown v \<Rightarrow> ''Unknown error'')"

text \<open>The values \<open>!expression\<close> holds for, among those that are no string.\<close>

definition falsy :: "jsval \<Rightarrow> bool" where
  "falsy v = (v = Undefined \<or> v = Null \<or> v = Bool False \<or> v = Num 0)"

definition executeRunJSAction ::
  "'w host \<Rightarrow> 'w manager \<Rightarrow> action_definition \<Rightarrow> jsval \<Rightarrow> (thrown + action_result) \<times> 'w manager" where
  "executeRunJSAction h s action params =
     (let code = obj_get (config action) ''code'';
          (outcome, eng) =
            (case code of
               Str text \<Rightarrow> evaluate (js_engine h) (expressionEngine s) text True
             | _ \<Rightarrow> if falsy code then (Inr (Str []), expressionEngine s)
                    else evaluate_untyped h code (expressionEngine s));
          s1 = s\<lparr> expressionEngine := eng \<rparr>
      in case outcome of
        Inr result \<Rightarrow> (Inr \<lparr> success = True, data = Some result, error = None \<rparr>, s1)
      | Inl e \<Rightarrow> (Inr \<lparr> success = False, data = None, error = Some (error_message e) \<rparr>, s1))"

definition executeBrowserAction ::
  "'w host \<Rightarrow> 'w manager \<Rightarrow> action_definition \<Rightarrow> jsval \<Rightarrow> (thrown + action_result) \<times> 'w manager" where
  "executeBrowserAction h s action params =
     (case browser_executor h action params s of
        (outcome, eng) \<Rightarrow> (outcome, s\<lparr> expressionEngine := eng \<rparr>))"

definition executeAction ::
  "'w host \<Rightarrow> 'w manager \<Rightarrow> action_definition \<Rightarrow> jsval \<Rightarrow> (thrown + action_result) \<times> 'w manager" where
  "executeAction h s action params =
     (case action_type action of
        Http \<Rightarrow> executeBrowserAction h s action params
      | Graphql \<Rightarrow> executeBrowserAction h s action params
      | UpdateWidget \<Rightarrow> executeUpdateWidgetAction h s action params
      | Navigate \<Rightarrow> executeBrowserAction h s action params
      | OpenModal \<Rightarrow> executeModalAction h s action ''open''
      | CloseModal \<Rightarrow> executeModalAction h s action ''close''
      | ShowAlert \<Rightarrow> executeBrowserAction h s action params
      | ShowToast \<Rightarrow> executeBrowserAction h s action params
      | LocalStorage \<Rightarrow> executeLocalStorageAction h s action params
      | CopyToClipboard \<Rightarrow> executeBrowserAction h s action params
      | DownloadFile \<Rightarrow> executeBrowserAction h s action params
      | RunJS \<Rightarrow> executeRunJSAction h s action params
      | OtherType t \<Rightarrow> (Inl (JsError (''Unknown action type: '' @ t)), s))"

subsection \<open>run and runActionChain\<close>

text \<open>
  \<open>run\<close>, with \<open>Inl\<close> for a rejected promise. The \<open>try\<close> block ends at the first
  exception, of the executor or of a listener; the \<open>catch\<close> block stores and announces the
  failure, and an exception of a listener there is not caught by anything.
\<close>

definition run_try ::
  "'w host \<Rightarrow> 'w manager \<Rightarrow> action_definition \<Rightarrow> string \<Rightarrow> jsval \<Rightarrow> (thrown + action_result) \<times> 'w manager" where
  "run_try h s action actionId params =
     (case executeAction h s action params of
        (Inl e, s1) \<Rightarrow> (Inl e, s1)
      | (Inr result, s1) \<Rightarrow>
          (case notifyListeners h (s1\<lparr> results := (results s1)(actionId \<mapsto> result) \<rparr>) actionId result of
             (Some e, s2) \<Rightarrow> (Inl e, s2)
           | (None, s2) \<Rightarrow> (Inr result, s2)))"

definition run_catch ::
  "'w host \<Rightarrow> 'w manager \<Rightarrow> string \<Rightarrow> thrown \<Rightarrow> (thrown + action_result) \<times> 'w manager" where
  "run_catch h s actionId e =
     (let result = \<lparr> success = False, data = None, error = Some (error_message e) \<rparr>
      in case notifyListeners h (s\<lparr> results := (results s)(actionId \<mapsto> result) \<rparr>) actionId result of
        (Some e', s1) \<Rightarrow> (Inl e', s1)
      | (None, s1) \<Rightarrow> (Inr result, s1))"

definition run :: "'w host \<Rightarrow> 'w manager \<Rightarrow> string \<Rightarrow> jsval \<Rightarrow> (thrown + action_result) \<times> 'w manager" where
  "run h s actionId params =
     (let s0 = s\<lparr> events := events s @ [RunCalled actionId] \<rparr>
      in case am_actions s0 actionId of
        None \<Rightarrow>
          (let result = \<lparr> success = False, data = None,
                          error = Some (''Action not found: '' @ actionId) \<rparr>
           in case notifyListeners h s0 actionId result of
             (Some e, s1) \<Rightarrow> (Inl e, s1)
           | (None, s1) \<Rightarrow> (Inr result, s1))
      | Some action \<Rightarrow>
          (case run_try h s0 action actionId params of
             (Inl e, s1) \<Rightarrow> run_catch h s1 actionId e
           | (Inr result, s1) \<Rightarrow> (Inr result, s1)))"



section \<open>A host for the examples\<close>

text \<open>
  The examples need a JavaScript engine to run on. \<open>sample_js\<close> knows a fragment of
  the language: a dotted path of identifiers (\<open>widgets.input1.value\<close>, white space
  around it ignored), and the call \<open>utils.tick()\<close> of a utility that counts its calls
  in the world and returns the count. A path that starts at one of the five parameters
  reads properties, and throws a \<open>TypeError\<close> when it reads a property of
  \<open>undefined\<close> or \<open>null\<close>; a path that starts at another identifier throws a
  \<open>ReferenceError\<close>, as an undeclared variable does (reserved words are not told
  apart, and built-in properties such as \<open>length\<close> are not known). Any other text is
  refused with a \<open>SyntaxError\<close>. The examples use only texts on which this is what
  ECMAScript does. One of them is \<open>{{ widgets.input1.value }}\<close>, which ECMAScript
  refuses too: after \<open>return (\<close> the first brace opens an object literal, and no
  property of an object literal starts with a brace. The messages of the errors are the
  sample's own.

  The sample also knows one text that is no expression and is accepted all the same,
  \<^verbatim>\<open>null.x)}catch(e){}throw 0;try{(0\<close>
  With it the body reads
  \<^verbatim>\<open>try { return (null.x)}catch(e){}throw 0;try{(0); } catch (error) { C }\<close>
  The first \<open>try\<close> throws a \<open>TypeError\<close> that its own \<open>catch\<close> swallows, and then
  \<open>throw 0\<close> leaves the function, whatever \<open>C\<close> is.
\<close>

fun split_on :: "char \<Rightarrow> string \<Rightarrow> string list" where
  "split_on d [] = [[]]"
| "split_on d (c # cs) =
     (if c = d then [] # split_on d cs
      else (case split_on d cs of [] \<Rightarrow> [[c]] | w # ws \<Rightarrow> (c # w) # ws))"

definition is_identifier :: "string \<Rightarrow> bool" where
  "is_identifier w =
     (case w of [] \<Rightarrow> False
      | c # cs \<Rightarrow> list_all is_word w \<and> \<not> (48 \<le> (of_char c :: nat) \<and> (of_char c :: nat) \<le> 57))"

fun path_get :: "jsval \<Rightarrow> string list \<Rightarrow> thrown + jsval" where
  "path_get v [] = Inr v"
| "path_get v (p # ps) =
     (case v of
        Undefined \<Rightarrow> Inl (JsError (''Cannot read properties of undefined (reading '' @ p @ '')''))
      | Null \<Rightarrow> Inl (JsError (''Cannot read properties of null (reading '' @ p @ '')''))
      | Obj kvs \<Rightarrow> path_get (obj_get kvs p) ps
      | Bool b \<Rightarrow> path_get Undefined ps
      | Num n \<Rightarrow> path_get Undefined ps
      | Str t \<Rightarrow> path_get Undefined ps
      | Arr vs \<Rightarrow> path_get Undefined ps
      | Fn f \<Rightarrow> path_get Undefined ps)"

definition namespace :: "evaluation_context \<Rightarrow> string \<Rightarrow> jsval option" where
  "namespace c n =
     (if n = ''widgets'' then Some (widgets c)
      else if n = ''actions'' then Some (actions c)
      else if n = ''page'' then Some (page c)
      else if n = ''utils'' then Some (utils c)
      else if n = ''store'' then Some (store c)
      else None)"

definition sample_js :: "nat js_engine" where
  "sample_js src =
     (let t = trim src
      in if t = ''utils.tick()'' then Inr (Expression (\<lambda>c w. (Inr (Num (int (Suc w))), c, Suc w)))
         else if t = ''null.x)}catch(e){}throw 0;try{(0'' then
           Inr (Escaping (\<lambda>throwOnError c w. (Inl (JsThrown (Num 0)), c, w)))
         else (case split_on CHR ''.'' t of
                 [] \<Rightarrow> Inl (JsError ''SyntaxError'')
               | root # props \<Rightarrow>
                   if is_identifier root \<and> list_all is_identifier props then
                     Inr (Expression
                       (\<lambda>c w. (case namespace c root of
                                  None \<Rightarrow> Inl (JsError (root @ '' is not defined''))
                                | Some v \<Rightarrow> path_get v props, c, w)))
                   else Inl (JsError ''SyntaxError'')))"

text \<open>The rest of the host: no listener throws, and the parts that the examples do not
  reach answer with a fixed value.\<close>

definition sample_host :: "nat host" where
  "sample_host =
     \<lparr> js_engine = sample_js,
       js_String = (\<lambda>v. case v of Str t \<Rightarrow> t | _ \<Rightarrow> ''[object Object]''),
       JSON_stringify = (\<lambda>v. None),
       JSON_parse = (\<lambda>t. Inl (JsError ''SyntaxError'')),
       listener_fn = (\<lambda>l r. None),
       evaluate_untyped = (\<lambda>v eng. (Inl (JsError ''expression.includes is not a function''), eng)),
       browser_executor = (\<lambda>a p s. (Inr \<lparr> success = True, data = None, error = None \<rparr>, expressionEngine s)) \<rparr>"

definition sample_engine :: "nat engine" where
  "sample_engine =
     updateContext (new_engine (Obj [(''tick'', Fn ''tick'')]) 0)
       \<lparr> p_widgets = Some (Obj [(''input1'', Obj [(''value'', Str ''Hi'')])]),
         p_actions = None, p_page = None, p_utils = None, p_store = None \<rparr>"

section \<open>Notions used in the statements\<close>

subsection \<open>The engine\<close>

text \<open>A cached key has passed the denylist: the invariant of the private cache.\<close>

definition cache_clean :: "'w engine \<Rightarrow> bool" where
  "cache_clean s = (\<forall>k entry. cache s k = Some entry \<longrightarrow> sanitizeExpression k = Inr k)"

text \<open>
  What can happen to an engine between two calls without its cache being emptied: a call
  of \<open>evaluate\<close> (\<open>evaluateTemplate\<close> and \<open>validateExpression\<close> are such calls), or the
  host changing what the objects of the context hold, or the world. \<open>engine_calls\<close> is
  any number of these, one after the other.
\<close>

datatype 'w engine_call = Evaluate string bool | HostChange evaluation_context 'w

fun engine_calls :: "'w js_engine \<Rightarrow> 'w engine \<Rightarrow> 'w engine_call list \<Rightarrow> 'w engine" where
  "engine_calls js s [] = s"
| "engine_calls js s (Evaluate e t # calls) = engine_calls js (snd (evaluate js s e t)) calls"
| "engine_calls js s (HostChange c w # calls) =
     engine_calls js (s\<lparr> engine_context := c, world := w \<rparr>) calls"

text \<open>
  The evaluation of the non-empty text \<open>e\<close> in state \<open>s\<close>, with the flag \<open>t\<close>, succeeds
  with \<open>v\<close>: the answer is in the cache, or \<open>e\<close> passes the denylist, the constructor
  accepts it and the function returns \<open>v\<close> without throwing.
\<close>

definition succeeds :: "'w js_engine \<Rightarrow> 'w engine \<Rightarrow> string \<Rightarrow> bool \<Rightarrow> jsval \<Rightarrow> bool" where
  "succeeds js s e t v =
     (e \<noteq> [] \<and>
      (case cache s e of
         Some entry \<Rightarrow> entry_value entry = v
       | None \<Rightarrow>
           sanitizeExpression e = Inr e \<and>
           (case js e of
              Inl err \<Rightarrow> False
            | Inr (Expression fn) \<Rightarrow> fst (fn (engine_context s) (world s)) = Inr v
            | Inr (Escaping fn) \<Rightarrow> fst (fn t (engine_context s) (world s)) = Inr v)))"

text \<open>
  What running \<open>e\<close> against the context of \<open>s\<close> gives (the error of the constructor, or
  what the expression, or else the function for the flag \<open>t\<close>, returns or throws), and
  what \<open>evaluate\<close> makes of it for its caller.
\<close>

definition fresh_result :: "'w js_engine \<Rightarrow> 'w engine \<Rightarrow> string \<Rightarrow> bool \<Rightarrow> thrown + jsval" where
  "fresh_result js s e t =
     (case js e of
        Inl err \<Rightarrow> Inl err
      | Inr (Expression fn) \<Rightarrow> fst (fn (engine_context s) (world s))
      | Inr (Escaping fn) \<Rightarrow> fst (fn t (engine_context s) (world s)))"

definition recover :: "bool \<Rightarrow> thrown + jsval \<Rightarrow> thrown + jsval" where
  "recover throwOnError r =
     (case r of Inl err \<Rightarrow> if throwOnError then Inl err else Inr Undefined | Inr v \<Rightarrow> Inr v)"

text \<open>The text \<open>e\<close> is one expression, and it throws when it is evaluated in \<open>s\<close>.\<close>

definition runtime_error :: "'w js_engine \<Rightarrow> 'w engine \<Rightarrow> string \<Rightarrow> bool" where
  "runtime_error js s e =
     (case js e of
        Inl err \<Rightarrow> False
      | Inr (Expression fn) \<Rightarrow>
          (case fst (fn (engine_context s) (world s)) of Inl err \<Rightarrow> True | Inr v \<Rightarrow> False)
      | Inr (Escaping fn) \<Rightarrow> False)"

subsection \<open>The scanners\<close>

text \<open>A character that can stand inside a reference: a word character or a dot.\<close>

definition is_ref_char :: "char \<Rightarrow> bool" where
  "is_ref_char c = (is_word c \<or> c = CHR ''.'')"

subsection \<open>The manager\<close>

text \<open>The listeners registered for an action, in the order of the \<open>Set\<close>.\<close>

definition listeners_of :: "'w manager \<Rightarrow> string \<Rightarrow> nat list" where
  "listeners_of s actionId = (case listeners s actionId of None \<Rightarrow> [] | Some ls \<Rightarrow> ls)"

text \<open>The identifiers \<open>run\<close> was entered with, in order.\<close>

fun run_calls :: "event list \<Rightarrow> string list" where
  "run_calls [] = []"
| "run_calls (RunCalled a # evs) = a # run_calls evs"
| "run_calls (ev # evs) = run_calls evs"


definition failure :: "thrown \<Rightarrow> action_result" where
  "failure e = \<lparr> success = False, data = None, error = Some (error_message e) \<rparr>"


text \<open>
  A manager for the examples. It uses the sample engine, whose context has
  \<open>widgets.input1.value = "Hi"\<close>. Two actions are registered: \<open>greet\<close>, the
  \<open>updateWidget\<close> action that sets the label of \<open>w1\<close> to \<open>{{ widgets.input1.value }}\<close>,
  and \<open>purge\<close>, a \<open>localStorage\<close> action with an operation the executor does not know.
  A widget-update callback is set, and listener 7 listens to \<open>purge\<close>.
\<close>

definition sample_manager :: "nat manager" where
  "sample_manager =
     addListener
       (onWidgetUpdate
          (registerAction
             (registerAction (new_manager sample_engine Map.empty)
                \<lparr> action_id = ''greet'', action_type = UpdateWidget,
                  config = [(''widgetId'', Str ''w1''),
                            (''updates'', Obj [(''label'', Str ''{{ widgets.input1.value }}'')])] \<rparr>)
             \<lparr> action_id = ''purge'', action_type = LocalStorage,
               config = [(''operation'', Str ''purge'')] \<rparr>)
          (\<lambda>widgetId updates. None))
       ''purge'' 7"

section \<open>Properties of the expression engine\<close>

subsection \<open>Substrings\<close>

lemma starts_with_iff: "starts_with s k \<longleftrightarrow> (\<exists>v. s = k @ v)"
  by (induction s k rule: starts_with.induct) auto

lemma str_includes_iff: "str_includes s k \<longleftrightarrow> (\<exists>u v. s = u @ k @ v)"
proof (induction s)
  case Nil
  then show ?case by simp
next
  case (Cons c cs)
  show ?case
  proof
    assume "str_includes (c # cs) k"
    then consider "starts_with (c # cs) k" | "str_includes cs k" by auto
    then show "\<exists>u v. c # cs = u @ k @ v"
    proof cases
      case 1
      then obtain v where "c # cs = k @ v" using starts_with_iff by blast
      then have "c # cs = [] @ k @ v" by simp
      then show ?thesis by blast
    next
      case 2
      then obtain u v where "cs = u @ k @ v" using Cons.IH by blast
      then have "c # cs = (c # u) @ k @ v" by simp
      then show ?thesis by blast
    qed
  next
    assume "\<exists>u v. c # cs = u @ k @ v"
    then obtain u v where uv: "c # cs = u @ k @ v" by blast
    show "str_includes (c # cs) k"
    proof (cases u)
      case Nil
      then have "starts_with (c # cs) k" using uv starts_with_iff by auto
      then show ?thesis by simp
    next
      case (Cons a u')
      then have "cs = u' @ k @ v" using uv by simp
      then have "str_includes cs k" using Cons.IH by blast
      then show ?thesis by simp
    qed
  qed
qed

subsection \<open>The cases of evaluate\<close>

lemma sanitize_cases: "(\<exists>m. sanitizeExpression e = Inl (JsError m)) \<or> sanitizeExpression e = Inr e"
  by (simp add: sanitizeExpression_def split: option.splits)

lemma sanitize_Inr: "sanitizeExpression e = Inr x \<Longrightarrow> x = e"
  using sanitize_cases[of e] by auto

lemma evaluate_empty: "evaluate js s [] t = (Inr (Str []), s)"
  by (simp add: evaluate_def)

lemma evaluate_hit:
  "e \<noteq> [] \<Longrightarrow> cache s e = Some entry \<Longrightarrow> evaluate js s e t = (Inr (entry_value entry), s)"
  by (simp add: evaluate_def)

lemma evaluate_denied:
  "e \<noteq> [] \<Longrightarrow> cache s e = None \<Longrightarrow> sanitizeExpression e = Inl err \<Longrightarrow>
   evaluate js s e t = (if t then Inl err else Inr Undefined, s)"
  by (simp add: evaluate_def)

lemma evaluate_syntax_error:
  "e \<noteq> [] \<Longrightarrow> cache s e = None \<Longrightarrow> sanitizeExpression e = Inr e \<Longrightarrow> js e = Inl err \<Longrightarrow>
   evaluate js s e t = (if t then Inl err else Inr Undefined, s\<lparr> js_log := js_log s @ [e] \<rparr>)"
  by (simp add: evaluate_def)

lemma evaluate_throws:
  "e \<noteq> [] \<Longrightarrow> cache s e = None \<Longrightarrow> sanitizeExpression e = Inr e \<Longrightarrow> js e = Inr (Expression fn) \<Longrightarrow>
   fn (engine_context s) (world s) = (Inl err, c, w) \<Longrightarrow>
   evaluate js s e t =
     (if t then (Inl err, s\<lparr> js_log := js_log s @ [e], engine_context := c, world := w \<rparr>)
      else (Inr Undefined,
            s\<lparr> js_log := js_log s @ [e], engine_context := c, world := w,
               cache := (cache s)(e \<mapsto> \<lparr> entry_value = Undefined, entry_deps = {} \<rparr>) \<rparr>))"
  by (simp add: evaluate_def)

lemma evaluate_returns:
  "e \<noteq> [] \<Longrightarrow> cache s e = None \<Longrightarrow> sanitizeExpression e = Inr e \<Longrightarrow> js e = Inr (Expression fn) \<Longrightarrow>
   fn (engine_context s) (world s) = (Inr v, c, w) \<Longrightarrow>
   evaluate js s e t =
     (Inr v,
      s\<lparr> js_log := js_log s @ [e], engine_context := c, world := w,
         cache := (cache s)(e \<mapsto> \<lparr> entry_value = v, entry_deps = {} \<rparr>) \<rparr>)"
  by (simp add: evaluate_def)

lemma evaluate_escaping_throws:
  "e \<noteq> [] \<Longrightarrow> cache s e = None \<Longrightarrow> sanitizeExpression e = Inr e \<Longrightarrow> js e = Inr (Escaping fn) \<Longrightarrow>
   fn t (engine_context s) (world s) = (Inl err, c, w) \<Longrightarrow>
   evaluate js s e t =
     (if t then Inl err else Inr Undefined,
      s\<lparr> js_log := js_log s @ [e], engine_context := c, world := w \<rparr>)"
  by (simp add: evaluate_def)

lemma evaluate_escaping_returns:
  "e \<noteq> [] \<Longrightarrow> cache s e = None \<Longrightarrow> sanitizeExpression e = Inr e \<Longrightarrow> js e = Inr (Escaping fn) \<Longrightarrow>
   fn t (engine_context s) (world s) = (Inr v, c, w) \<Longrightarrow>
   evaluate js s e t =
     (Inr v,
      s\<lparr> js_log := js_log s @ [e], engine_context := c, world := w,
         cache := (cache s)(e \<mapsto> \<lparr> entry_value = v, entry_deps = {} \<rparr>) \<rparr>)"
  by (simp add: evaluate_def)

lemma evaluate_cases
  [case_names blank hit denied rejected throws returns escaping_throws escaping_returns]:
  obtains
    "e = []" "evaluate js s e t = (Inr (Str []), s)"
  | entry where "e \<noteq> []" "cache s e = Some entry" "evaluate js s e t = (Inr (entry_value entry), s)"
  | err where "e \<noteq> []" "cache s e = None" "sanitizeExpression e = Inl err"
      "evaluate js s e t = (if t then Inl err else Inr Undefined, s)"
  | err where "e \<noteq> []" "cache s e = None" "sanitizeExpression e = Inr e" "js e = Inl err"
      "evaluate js s e t = (if t then Inl err else Inr Undefined, s\<lparr> js_log := js_log s @ [e] \<rparr>)"
  | fn err c w where "e \<noteq> []" "cache s e = None" "sanitizeExpression e = Inr e"
      "js e = Inr (Expression fn)" "fn (engine_context s) (world s) = (Inl err, c, w)"
      "evaluate js s e t =
         (if t then (Inl err, s\<lparr> js_log := js_log s @ [e], engine_context := c, world := w \<rparr>)
          else (Inr Undefined,
                s\<lparr> js_log := js_log s @ [e], engine_context := c, world := w,
                   cache := (cache s)(e \<mapsto> \<lparr> entry_value = Undefined, entry_deps = {} \<rparr>) \<rparr>))"
  | fn v c w where "e \<noteq> []" "cache s e = None" "sanitizeExpression e = Inr e"
      "js e = Inr (Expression fn)" "fn (engine_context s) (world s) = (Inr v, c, w)"
      "evaluate js s e t =
         (Inr v,
          s\<lparr> js_log := js_log s @ [e], engine_context := c, world := w,
             cache := (cache s)(e \<mapsto> \<lparr> entry_value = v, entry_deps = {} \<rparr>) \<rparr>)"
  | fn err c w where "e \<noteq> []" "cache s e = None" "sanitizeExpression e = Inr e"
      "js e = Inr (Escaping fn)" "fn t (engine_context s) (world s) = (Inl err, c, w)"
      "evaluate js s e t =
         (if t then Inl err else Inr Undefined,
          s\<lparr> js_log := js_log s @ [e], engine_context := c, world := w \<rparr>)"
  | fn v c w where "e \<noteq> []" "cache s e = None" "sanitizeExpression e = Inr e"
      "js e = Inr (Escaping fn)" "fn t (engine_context s) (world s) = (Inr v, c, w)"
      "evaluate js s e t =
         (Inr v,
          s\<lparr> js_log := js_log s @ [e], engine_context := c, world := w,
             cache := (cache s)(e \<mapsto> \<lparr> entry_value = v, entry_deps = {} \<rparr>) \<rparr>)"
proof (cases "e = []")
  case True
  then show ?thesis using that(1) by (simp add: evaluate_empty)
next
  case ne: False
  show ?thesis
  proof (cases "cache s e")
    case (Some entry)
    then show ?thesis using that(2) ne by (simp add: evaluate_hit)
  next
    case nc: None
    show ?thesis
    proof (cases "sanitizeExpression e")
      case (Inl err)
      then show ?thesis using that(3) ne nc by (simp add: evaluate_denied)
    next
      case (Inr x)
      then have san: "sanitizeExpression e = Inr e" using sanitize_Inr by blast
      show ?thesis
      proof (cases "js e")
        case (Inl err)
        then show ?thesis using that(4) ne nc san by (simp add: evaluate_syntax_error)
      next
        case compiled: (Inr cf)
        show ?thesis
        proof (cases cf)
          case (Expression fn)
          with compiled have fn: "js e = Inr (Expression fn)" by simp
          obtain r c w where run: "fn (engine_context s) (world s) = (r, c, w)"
            by (cases "fn (engine_context s) (world s)") auto
          show ?thesis
          proof (cases r)
            case (Inl err)
            then have r: "fn (engine_context s) (world s) = (Inl err, c, w)" using run by simp
            from that(5)[OF ne nc san fn r] evaluate_throws[where js = js and t = t, OF ne nc san fn r]
            show ?thesis by blast
          next
            case (Inr v)
            then have r: "fn (engine_context s) (world s) = (Inr v, c, w)" using run by simp
            from that(6)[OF ne nc san fn r] evaluate_returns[where js = js and t = t, OF ne nc san fn r]
            show ?thesis by blast
          qed
        next
          case (Escaping fn)
          with compiled have fn: "js e = Inr (Escaping fn)" by simp
          obtain r c w where run: "fn t (engine_context s) (world s) = (r, c, w)"
            by (cases "fn t (engine_context s) (world s)") auto
          show ?thesis
          proof (cases r)
            case (Inl err)
            then have r: "fn t (engine_context s) (world s) = (Inl err, c, w)" using run by simp
            from that(7)[OF ne nc san fn r]
              evaluate_escaping_throws[where js = js and t = t, OF ne nc san fn r]
            show ?thesis by blast
          next
            case (Inr v)
            then have r: "fn t (engine_context s) (world s) = (Inr v, c, w)" using run by simp
            from that(8)[OF ne nc san fn r]
              evaluate_escaping_returns[where js = js and t = t, OF ne nc san fn r]
            show ?thesis by blast
          qed
        qed
      qed
    qed
  qed
qed

lemma evaluate_keeps_entry:
  assumes "cache s k = Some x"
  shows "cache (snd (evaluate js s e t)) k = Some x"
proof (cases rule: evaluate_cases[of e js s t])
  case throws
  then show ?thesis using assms by (cases "k = e") auto
next
  case returns
  then show ?thesis using assms by (cases "k = e") auto
next
  case escaping_returns
  then show ?thesis using assms by (cases "k = e") auto
qed (use assms in auto)

lemma evaluate_log:
  "js_log (snd (evaluate js s e t)) = js_log s \<or>
   (cache s e = None \<and> js_log (snd (evaluate js s e t)) = js_log s @ [e])"
  by (cases rule: evaluate_cases[of e js s t]) auto

lemma evaluate_log_cached:
  assumes "cache s k = Some x"
  shows "count_list (js_log (snd (evaluate js s e t))) k = count_list (js_log s) k"
  using evaluate_log[of js s e t] assms by (cases "k = e") auto

lemma engine_calls_keeps_entry:
  "cache s k = Some x \<Longrightarrow> cache (engine_calls js s calls) k = Some x"
  by (induction js s calls rule: engine_calls.induct) (auto simp: evaluate_keeps_entry)

lemma engine_calls_log_cached:
  "cache s k = Some x \<Longrightarrow> count_list (js_log (engine_calls js s calls)) k = count_list (js_log s) k"
  by (induction js s calls rule: engine_calls.induct)
     (auto simp: evaluate_keeps_entry evaluate_log_cached)

lemma evaluate_cache_new:
  assumes "cache (snd (evaluate js s e t)) k = Some entry"
  shows "cache s k = Some entry \<or> (k = e \<and> sanitizeExpression e = Inr e)"
  by (cases rule: evaluate_cases[of e js s t]) (use assms in \<open>auto split: if_splits\<close>)

subsection \<open>The invariant of the cache\<close>

lemma cache_clean_evaluate: "cache_clean s \<Longrightarrow> cache_clean (snd (evaluate js s e t))"
  unfolding cache_clean_def using evaluate_cache_new by blast

lemma reachable_cache_clean: "reachable js s \<Longrightarrow> cache_clean s"
proof (induction rule: reachable.induct)
  case (reach_new u w)
  show ?case by (simp add: cache_clean_def new_engine_def)
next
  case (reach_evaluate s expression throwOnError)
  from reach_evaluate.IH show ?case by (rule cache_clean_evaluate)
next
  case (reach_updateContext s p)
  show ?case by (simp add: cache_clean_def updateContext_def clearCache_def)
next
  case (reach_clearCache s)
  show ?case by (simp add: cache_clean_def clearCache_def)
next
  case (reach_host s c w)
  then show ?case by (simp add: cache_clean_def)
qed

subsection \<open>The sample engine, evaluated\<close>

lemma sample_passes:
  "sanitizeExpression ''utils.tick()'' = Inr ''utils.tick()''"
  "sanitizeExpression ''widgets.nope.value'' = Inr ''widgets.nope.value''"
  "sanitizeExpression ''widgets.input1.value'' = Inr ''widgets.input1.value''"
  "sanitizeExpression ''null.x)}catch(e){}throw 0;try{(0'' = Inr ''null.x)}catch(e){}throw 0;try{(0''"
  by (simp_all add: sanitizeExpression_def forbidden_def)

lemma sample_engine_fields:
  "cache sample_engine = (\<lambda>k. None)"
  "world sample_engine = 0"
  "js_log sample_engine = []"
  "engine_context sample_engine =
     \<lparr> widgets = Obj [(''input1'', Obj [(''value'', Str ''Hi'')])], actions = Obj [],
       page = Obj [], utils = Obj [(''tick'', Fn ''tick'')], store = Obj [] \<rparr>"
  by (simp_all add: sample_engine_def updateContext_def clearCache_def new_engine_def spread_def)

lemma sample_js_tick:
  "sample_js ''utils.tick()'' = Inr (Expression (\<lambda>c w. (Inr (Num (int (Suc w))), c, Suc w)))"
  by (simp add: sample_js_def trim_def is_space_def)

lemma sample_js_nope:
  "sample_js ''widgets.nope.value'' =
     Inr (Expression
       (\<lambda>c w. (case namespace c ''widgets'' of
                  None \<Rightarrow> Inl (JsError (''widgets'' @ '' is not defined''))
                | Some v \<Rightarrow> path_get v [''nope'', ''value''], c, w)))"
  by (simp add: sample_js_def trim_def is_space_def is_identifier_def is_word_def)

lemma sample_js_value [simp]:
  "sample_js ''widgets.input1.value'' =
     Inr (Expression
       (\<lambda>c w. (case namespace c ''widgets'' of
                  None \<Rightarrow> Inl (JsError (''widgets'' @ '' is not defined''))
                | Some v \<Rightarrow> path_get v [''input1'', ''value''], c, w)))"
  by (simp add: sample_js_def trim_def is_space_def is_identifier_def is_word_def)

lemma sample_js_escaping:
  "sample_js ''null.x)}catch(e){}throw 0;try{(0'' =
     Inr (Escaping (\<lambda>throwOnError c w. (Inl (JsThrown (Num 0)), c, w)))"
  by (simp add: sample_js_def trim_def is_space_def)

subsection \<open>The denylist\<close>

lemma find_forbidden:
  assumes "k \<in> set forbidden" and "expression = u @ k @ v"
  shows "\<exists>kw. find (str_includes expression) forbidden = Some kw \<and> kw \<in> set forbidden \<and> str_includes expression kw"
proof -
  have "str_includes expression k" using assms(2) str_includes_iff by blast
  then have "find (str_includes expression) forbidden \<noteq> None"
    using assms(1) by (auto simp: find_None_iff)
  then obtain kw where kw: "find (str_includes expression) forbidden = Some kw" by blast
  then have "kw \<in> set forbidden \<and> str_includes expression kw"
    by (auto simp: find_Some_iff)
  with kw show ?thesis by blast
qed

text \<open>
  Claim C1. In every state the engine can reach, an expression that contains a keyword of
  the denylist is refused before anything runs: with \<open>throwOnError\<close> the caller gets the
  error \<open>Forbidden keyword in expression: kw\<close> for a keyword \<open>kw\<close> the expression
  includes, without it \<open>undefined\<close>. Either way the engine is left as it was, so nothing
  was handed to the \<open>Function\<close> constructor and nothing was cached; and the expression
  has no cache entry that could answer in place of the check.
\<close>

theorem evaluate_forbidden:
  assumes "reachable js s" and "k \<in> set forbidden" and "expression = u @ k @ v"
  shows "\<exists>kw. find (str_includes expression) forbidden = Some kw \<and>
           kw \<in> set forbidden \<and> str_includes expression kw \<and>
           evaluate js s expression True =
             (Inl (JsError (''Forbidden keyword in expression: '' @ kw)), s) \<and>
           evaluate js s expression False = (Inr Undefined, s) \<and>
           cache s expression = None"
proof -
  obtain kw where kw: "find (str_includes expression) forbidden = Some kw"
    and mem: "kw \<in> set forbidden" and inc: "str_includes expression kw"
    using find_forbidden[OF assms(2,3)] by blast
  have san: "sanitizeExpression expression = Inl (JsError (''Forbidden keyword in expression: '' @ kw))"
    by (simp add: sanitizeExpression_def kw)
  have "cache_clean s" using assms(1) by (rule reachable_cache_clean)
  then have nocache: "cache s expression = None"
    using san by (cases "cache s expression") (auto simp: cache_clean_def)
  have "[] \<notin> set forbidden" by (simp add: forbidden_def)
  then have "k \<noteq> []" using assms(2) by auto
  then have ne: "expression \<noteq> []" using assms(3) by simp
  show ?thesis
    using kw mem inc san nocache ne by (auto simp: evaluate_def)
qed

theorem evaluate_forbidden_witness:
  "evaluate sample_js sample_engine ''window.location'' True =
     (Inl (JsError ''Forbidden keyword in expression: window''), sample_engine) \<and>
   evaluate sample_js sample_engine ''window.location'' False = (Inr Undefined, sample_engine) \<and>
   cache sample_engine ''window.location'' = None"
proof -
  have r: "reachable sample_js sample_engine"
    unfolding sample_engine_def by (rule reach_updateContext, rule reach_new)
  have k: "''window'' \<in> set forbidden" by (simp add: forbidden_def)
  have e: "''window.location'' = [] @ ''window'' @ ''.location''" by simp
  from evaluate_forbidden[OF r k e] obtain kw where
    kw: "find (str_includes ''window.location'') forbidden = Some kw" and
    ev: "evaluate sample_js sample_engine ''window.location'' True =
           (Inl (JsError (''Forbidden keyword in expression: '' @ kw)), sample_engine)"
        "evaluate sample_js sample_engine ''window.location'' False = (Inr Undefined, sample_engine)"
        "cache sample_engine ''window.location'' = None"
    by blast
  have "find (str_includes ''window.location'') forbidden = Some ''window''"
    by (simp add: forbidden_def)
  with kw have "kw = ''window''" by simp
  with ev show ?thesis by simp
qed

subsection \<open>The cache\<close>

text \<open>
  Claim C5, as the code has it. When the evaluation of the non-empty text \<open>e\<close> succeeds
  with \<open>v\<close>, \<open>evaluate\<close> returns \<open>v\<close> and \<open>v\<close> is in the cache under the text \<open>e\<close>; the
  call hands \<open>e\<close> to the JavaScript engine at most once. After it, and after any further
  calls of \<open>evaluate\<close> (any texts, either flag) and any changes the host makes to the
  context objects and the world, but with neither \<open>updateContext\<close> nor \<open>clearCache\<close>
  between, \<open>evaluate e\<close> returns \<open>v\<close> again and leaves the engine as it is, context and
  world included: \<open>e\<close> is not handed to the JavaScript engine again, so a utility it calls
  does not run again. The empty text evaluates to the empty string and leaves the engine
  as it is: it is neither run nor cached.
\<close>

theorem evaluate_cached_until_cleared:
  assumes "succeeds js s e t v"
  shows "fst (evaluate js s e t) = Inr v \<and>
         map_option entry_value (cache (snd (evaluate js s e t)) e) = Some v \<and>
         count_list (js_log (snd (evaluate js s e t))) e \<le> Suc (count_list (js_log s) e) \<and>
         (\<forall>calls t'.
            evaluate js (engine_calls js (snd (evaluate js s e t)) calls) e t' =
              (Inr v, engine_calls js (snd (evaluate js s e t)) calls) \<and>
            count_list (js_log (engine_calls js (snd (evaluate js s e t)) calls)) e =
              count_list (js_log (snd (evaluate js s e t))) e) \<and>
         evaluate js s [] t = (Inr (Str []), s)"
proof -
  let ?s1 = "snd (evaluate js s e t)"
  from assms have ne: "e \<noteq> []" by (simp add: succeeds_def)
  have first: "fst (evaluate js s e t) = Inr v \<and> (\<exists>entry. cache ?s1 e = Some entry \<and> entry_value entry = v)"
  proof (cases rule: evaluate_cases[of e js s t])
    case blank
    then show ?thesis using ne by simp
  next
    case (hit entry)
    then show ?thesis using assms by (simp add: succeeds_def)
  next
    case (denied err)
    then show ?thesis using assms by (simp add: succeeds_def)
  next
    case (rejected err)
    then show ?thesis using assms by (simp add: succeeds_def)
  next
    case (throws fn err c w)
    then show ?thesis using assms by (simp add: succeeds_def)
  next
    case (returns fn v' c w)
    then show ?thesis using assms by (simp add: succeeds_def)
  next
    case (escaping_throws fn err c w)
    then show ?thesis using assms by (simp add: succeeds_def)
  next
    case (escaping_returns fn v' c w)
    then show ?thesis using assms by (simp add: succeeds_def)
  qed
  then obtain entry where entry: "cache ?s1 e = Some entry" "entry_value entry = v" by blast
  have log1: "count_list (js_log ?s1) e \<le> Suc (count_list (js_log s) e)"
    using evaluate_log[of js s e t] by auto
  have later: "evaluate js (engine_calls js ?s1 calls) e t' = (Inr v, engine_calls js ?s1 calls) \<and>
        count_list (js_log (engine_calls js ?s1 calls)) e = count_list (js_log ?s1) e" for calls t'
  proof -
    have "cache (engine_calls js ?s1 calls) e = Some entry"
      using entry(1) by (rule engine_calls_keeps_entry)
    then have "evaluate js (engine_calls js ?s1 calls) e t' = (Inr v, engine_calls js ?s1 calls)"
      using ne entry(2) by (simp add: evaluate_hit)
    then show ?thesis using engine_calls_log_cached[OF entry(1)] by simp
  qed
  show ?thesis using first entry log1 later by (simp add: evaluate_empty)
qed

text \<open>
  The claim asks for no more than that no \<open>updateContext\<close> comes between the two calls.
  \<open>clearCache\<close> is public too: after it the same text is run again, and the utility it
  calls counts a second call. And the empty text, whose evaluation does not fail, is not
  cached.
\<close>

theorem evaluate_cached_clearCache_counterexample:
  "fst (evaluate sample_js sample_engine ''utils.tick()'' False) = Inr (Num 1) \<and>
   fst (evaluate sample_js
          (clearCache (snd (evaluate sample_js sample_engine ''utils.tick()'' False)))
          ''utils.tick()'' False) = Inr (Num 2) \<and>
   fst (evaluate sample_js sample_engine [] False) = Inr (Str []) \<and>
   cache (snd (evaluate sample_js sample_engine [] False)) [] = None"
  by (simp add: evaluate_def clearCache_def sample_engine_fields sample_passes sample_js_tick)

theorem evaluate_cached_until_cleared_witness:
  "fst (evaluate sample_js sample_engine ''utils.tick()'' False) = Inr (Num 1) \<and>
   world (snd (evaluate sample_js sample_engine ''utils.tick()'' False)) = 1 \<and>
   evaluate sample_js
     (engine_calls sample_js (snd (evaluate sample_js sample_engine ''utils.tick()'' False))
        [HostChange (engine_context sample_engine) 1, Evaluate ''widgets.input1.value'' True])
     ''utils.tick()'' True =
     (Inr (Num 1),
      engine_calls sample_js (snd (evaluate sample_js sample_engine ''utils.tick()'' False))
        [HostChange (engine_context sample_engine) 1, Evaluate ''widgets.input1.value'' True])"
proof -
  have s: "succeeds sample_js sample_engine ''utils.tick()'' False (Num 1)"
    by (simp add: succeeds_def sample_engine_fields sample_passes sample_js_tick)
  have w: "world (snd (evaluate sample_js sample_engine ''utils.tick()'' False)) = 1"
    by (simp add: evaluate_def sample_engine_fields sample_passes sample_js_tick)
  from evaluate_cached_until_cleared[OF s] have
    "fst (evaluate sample_js sample_engine ''utils.tick()'' False) = Inr (Num 1)"
    "evaluate sample_js
       (engine_calls sample_js (snd (evaluate sample_js sample_engine ''utils.tick()'' False))
          [HostChange (engine_context sample_engine) 1, Evaluate ''widgets.input1.value'' True])
       ''utils.tick()'' True =
     (Inr (Num 1),
      engine_calls sample_js (snd (evaluate sample_js sample_engine ''utils.tick()'' False))
        [HostChange (engine_context sample_engine) 1, Evaluate ''widgets.input1.value'' True])"
    by blast+
  then show ?thesis using w by simp
qed

lemma evaluate_miss:
  assumes "e \<noteq> []" "cache s e = None" "sanitizeExpression e = Inr e"
  shows "fst (evaluate js s e t) = recover t (fresh_result js s e t) \<and>
         js_log (snd (evaluate js s e t)) = js_log s @ [e]"
  by (cases rule: evaluate_cases[of e js s t])
     (use assms in \<open>auto simp: recover_def fresh_result_def\<close>)

text \<open>
  Claim C9, as the code has it. With \<open>throwOnError = false\<close>, a text that passes the
  denylist, is one expression, and throws while it is evaluated, evaluates to
  \<open>undefined\<close>, and \<open>undefined\<close> is cached under the text. Every later call of
  \<open>evaluate\<close> with that text, with either flag and after any other calls of \<open>evaluate\<close>
  and changes by the host, returns \<open>undefined\<close> and leaves the engine as it is: the
  expression does not run again. This lasts until the cache is emptied, by
  \<open>updateContext\<close> or by \<open>clearCache\<close>: after either the entry is gone and the text is
  handed to the JavaScript engine again.
\<close>

theorem evaluate_expression_error_cached:
  assumes "e \<noteq> []" and "cache s e = None" and "sanitizeExpression e = Inr e"
    and "runtime_error js s e"
  shows "fst (evaluate js s e False) = Inr Undefined \<and>
         cache (snd (evaluate js s e False)) e = Some \<lparr> entry_value = Undefined, entry_deps = {} \<rparr> \<and>
         js_log (snd (evaluate js s e False)) = js_log s @ [e] \<and>
         (\<forall>calls t.
            evaluate js (engine_calls js (snd (evaluate js s e False)) calls) e t =
              (Inr Undefined, engine_calls js (snd (evaluate js s e False)) calls)) \<and>
         (\<forall>calls p t.
            cache (updateContext (engine_calls js (snd (evaluate js s e False)) calls) p) e = None \<and>
            js_log (snd (evaluate js (updateContext (engine_calls js (snd (evaluate js s e False)) calls) p) e t)) =
              js_log (engine_calls js (snd (evaluate js s e False)) calls) @ [e] \<and>
            cache (clearCache (engine_calls js (snd (evaluate js s e False)) calls)) e = None \<and>
            js_log (snd (evaluate js (clearCache (engine_calls js (snd (evaluate js s e False)) calls)) e t)) =
              js_log (engine_calls js (snd (evaluate js s e False)) calls) @ [e])"
proof -
  let ?s1 = "snd (evaluate js s e False)"
  from assms(4) obtain cf where cf: "js e = Inr cf"
    by (cases "js e") (auto simp: runtime_error_def)
  with assms(4) obtain fn where fn: "js e = Inr (Expression fn)"
    by (cases cf) (auto simp: runtime_error_def)
  with assms(4) obtain err where "fst (fn (engine_context s) (world s)) = Inl err"
    by (cases "fst (fn (engine_context s) (world s))") (auto simp: runtime_error_def)
  then obtain c w where run: "fn (engine_context s) (world s) = (Inl err, c, w)"
    by (cases "fn (engine_context s) (world s)") auto
  note ev = evaluate_throws[where js = js and t = False, OF assms(1-3) fn run]
  have first: "fst (evaluate js s e False) = Inr Undefined" using ev by simp
  have entry: "cache ?s1 e = Some \<lparr> entry_value = Undefined, entry_deps = {} \<rparr>" using ev by simp
  have log: "js_log ?s1 = js_log s @ [e]" using ev by simp
  have later: "evaluate js (engine_calls js ?s1 calls) e t = (Inr Undefined, engine_calls js ?s1 calls)"
    for calls t
  proof -
    have "cache (engine_calls js ?s1 calls) e = Some \<lparr> entry_value = Undefined, entry_deps = {} \<rparr>"
      using entry by (rule engine_calls_keeps_entry)
    then show ?thesis using assms(1) by (simp add: evaluate_hit)
  qed
  have after: "cache (updateContext (engine_calls js ?s1 calls) p) e = None \<and>
      js_log (snd (evaluate js (updateContext (engine_calls js ?s1 calls) p) e t)) =
        js_log (engine_calls js ?s1 calls) @ [e] \<and>
      cache (clearCache (engine_calls js ?s1 calls)) e = None \<and>
      js_log (snd (evaluate js (clearCache (engine_calls js ?s1 calls)) e t)) =
        js_log (engine_calls js ?s1 calls) @ [e]" for calls p t
  proof -
    let ?s3 = "updateContext (engine_calls js ?s1 calls) p"
    let ?s4 = "clearCache (engine_calls js ?s1 calls)"
    have c3: "cache ?s3 e = None" by (simp add: updateContext_def clearCache_def)
    have l3: "js_log ?s3 = js_log (engine_calls js ?s1 calls)"
      by (simp add: updateContext_def clearCache_def)
    have c4: "cache ?s4 e = None" by (simp add: clearCache_def)
    have l4: "js_log ?s4 = js_log (engine_calls js ?s1 calls)" by (simp add: clearCache_def)
    from evaluate_miss[OF assms(1) c3 assms(3)] evaluate_miss[OF assms(1) c4 assms(3)] c3 l3 c4 l4
    show ?thesis by simp
  qed
  show ?thesis using first entry log later after by simp
qed

text \<open>
  The claim speaks of every text that passes the denylist and raises an error while it
  runs. The text below passes the denylist and is no expression: it closes the generated
  \<open>try\<close> block and throws behind it. \<open>evaluate\<close> returns \<open>undefined\<close> from its outer
  \<open>catch\<close> and caches nothing, so the next call runs the text again (with
  \<open>throwOnError\<close> set, the caller gets what the text threw). And for an
  expression whose \<open>undefined\<close> was cached, \<open>clearCache\<close> makes the next call run it
  again, with no context update between.
\<close>

theorem evaluate_runtime_error_not_cached_counterexample:
  "sanitizeExpression ''null.x)}catch(e){}throw 0;try{(0'' = Inr ''null.x)}catch(e){}throw 0;try{(0'' \<and>
   evaluate sample_js sample_engine ''null.x)}catch(e){}throw 0;try{(0'' False =
     (Inr Undefined, sample_engine\<lparr> js_log := [''null.x)}catch(e){}throw 0;try{(0''] \<rparr>) \<and>
   cache (snd (evaluate sample_js sample_engine ''null.x)}catch(e){}throw 0;try{(0'' False))
     ''null.x)}catch(e){}throw 0;try{(0'' = None \<and>
   js_log (snd (evaluate sample_js
                  (snd (evaluate sample_js sample_engine ''null.x)}catch(e){}throw 0;try{(0'' False))
                  ''null.x)}catch(e){}throw 0;try{(0'' False)) =
     [''null.x)}catch(e){}throw 0;try{(0'', ''null.x)}catch(e){}throw 0;try{(0''] \<and>
   fst (evaluate sample_js sample_engine ''null.x)}catch(e){}throw 0;try{(0'' True) =
     Inl (JsThrown (Num 0)) \<and>
   js_log (snd (evaluate sample_js
                  (clearCache (snd (evaluate sample_js sample_engine ''widgets.nope.value'' False)))
                  ''widgets.nope.value'' False)) =
     [''widgets.nope.value'', ''widgets.nope.value'']"
  by (simp add: evaluate_def clearCache_def sample_engine_fields sample_passes sample_js_escaping
      sample_js_nope namespace_def obj_get_def)

theorem evaluate_expression_error_cached_witness:
  "fst (evaluate sample_js sample_engine ''widgets.nope.value'' False) = Inr Undefined \<and>
   evaluate sample_js
     (engine_calls sample_js (snd (evaluate sample_js sample_engine ''widgets.nope.value'' False))
        [HostChange (engine_context sample_engine) 3])
     ''widgets.nope.value'' True =
     (Inr Undefined,
      engine_calls sample_js (snd (evaluate sample_js sample_engine ''widgets.nope.value'' False))
        [HostChange (engine_context sample_engine) 3])"
proof -
  have ne: "''widgets.nope.value'' \<noteq> []" by simp
  have nc: "cache sample_engine ''widgets.nope.value'' = None" by (simp add: sample_engine_fields)
  have err: "runtime_error sample_js sample_engine ''widgets.nope.value''"
    by (simp add: runtime_error_def sample_js_nope sample_engine_fields namespace_def obj_get_def)
  from evaluate_expression_error_cached[OF ne nc sample_passes(2) err] have
    "fst (evaluate sample_js sample_engine ''widgets.nope.value'' False) = Inr Undefined"
    "evaluate sample_js
       (engine_calls sample_js (snd (evaluate sample_js sample_engine ''widgets.nope.value'' False))
          [HostChange (engine_context sample_engine) 3])
       ''widgets.nope.value'' True =
     (Inr Undefined,
      engine_calls sample_js (snd (evaluate sample_js sample_engine ''widgets.nope.value'' False))
        [HostChange (engine_context sample_engine) 3])"
    by blast+
  then show ?thesis by simp
qed

subsection \<open>updateContext\<close>

text \<open>
  Claim C6. \<open>updateContext\<close> replaces each namespace the partial context supplies and
  keeps the others, and it empties the cache whatever the cache held; nothing else
  changes. So a text (not empty, passing the denylist) evaluated after the update is run
  against the new context, whatever was cached for it before.
\<close>

theorem updateContext_merges_and_clears:
  "widgets (engine_context (updateContext s p)) =
     (case p_widgets p of None \<Rightarrow> widgets (engine_context s) | Some v \<Rightarrow> v) \<and>
   actions (engine_context (updateContext s p)) =
     (case p_actions p of None \<Rightarrow> actions (engine_context s) | Some v \<Rightarrow> v) \<and>
   page (engine_context (updateContext s p)) =
     (case p_page p of None \<Rightarrow> page (engine_context s) | Some v \<Rightarrow> v) \<and>
   utils (engine_context (updateContext s p)) =
     (case p_utils p of None \<Rightarrow> utils (engine_context s) | Some v \<Rightarrow> v) \<and>
   store (engine_context (updateContext s p)) =
     (case p_store p of None \<Rightarrow> store (engine_context s) | Some v \<Rightarrow> v) \<and>
   cache (updateContext s p) = (\<lambda>k. None) \<and>
   js_log (updateContext s p) = js_log s \<and>
   world (updateContext s p) = world s \<and>
   (e \<noteq> [] \<and> sanitizeExpression e = Inr e \<longrightarrow>
      fst (evaluate js (updateContext s p) e t) = recover t (fresh_result js (updateContext s p) e t) \<and>
      js_log (snd (evaluate js (updateContext s p) e t)) = js_log s @ [e])"
proof -
  have c: "cache (updateContext s p) e = None" by (simp add: updateContext_def clearCache_def)
  have l: "js_log (updateContext s p) = js_log s" by (simp add: updateContext_def clearCache_def)
  have "e \<noteq> [] \<and> sanitizeExpression e = Inr e \<longrightarrow>
      fst (evaluate js (updateContext s p) e t) = recover t (fresh_result js (updateContext s p) e t) \<and>
      js_log (snd (evaluate js (updateContext s p) e t)) = js_log s @ [e]"
    using evaluate_miss[of e "updateContext s p" js t] c l by simp
  moreover have "cache (updateContext s p) = (\<lambda>k. None)"
    by (simp add: updateContext_def clearCache_def)
  ultimately show ?thesis
    by (simp add: updateContext_def clearCache_def spread_def)
qed

theorem updateContext_merges_and_clears_witness:
  "fst (evaluate sample_js sample_engine ''widgets.input1.value'' False) = Inr (Str ''Hi'') \<and>
   fst (evaluate sample_js
          (updateContext (snd (evaluate sample_js sample_engine ''widgets.input1.value'' False))
             \<lparr> p_widgets = Some (Obj [(''input1'', Obj [(''value'', Str ''Ho'')])]),
               p_actions = None, p_page = None, p_utils = None, p_store = None \<rparr>)
          ''widgets.input1.value'' False) = Inr (Str ''Ho'')"
proof -
  have before: "fst (evaluate sample_js sample_engine ''widgets.input1.value'' False) = Inr (Str ''Hi'')"
    by (simp add: evaluate_def sample_engine_fields sample_passes namespace_def obj_get_def)
  have ne: "''widgets.input1.value'' \<noteq> [] \<and>
            sanitizeExpression ''widgets.input1.value'' = Inr ''widgets.input1.value''"
    by (simp add: sample_passes)
  from updateContext_merges_and_clears[of
      "snd (evaluate sample_js sample_engine ''widgets.input1.value'' False)"
      "\<lparr> p_widgets = Some (Obj [(''input1'', Obj [(''value'', Str ''Ho'')])]),
         p_actions = None, p_page = None, p_utils = None, p_store = None \<rparr>"
      "''widgets.input1.value''" sample_js False] ne
  have "fst (evaluate sample_js
          (updateContext (snd (evaluate sample_js sample_engine ''widgets.input1.value'' False))
             \<lparr> p_widgets = Some (Obj [(''input1'', Obj [(''value'', Str ''Ho'')])]),
               p_actions = None, p_page = None, p_utils = None, p_store = None \<rparr>)
          ''widgets.input1.value'' False) =
        recover False (fresh_result sample_js
          (updateContext (snd (evaluate sample_js sample_engine ''widgets.input1.value'' False))
             \<lparr> p_widgets = Some (Obj [(''input1'', Obj [(''value'', Str ''Ho'')])]),
               p_actions = None, p_page = None, p_utils = None, p_store = None \<rparr>)
          ''widgets.input1.value'' False)"
    by blast
  also have "\<dots> = Inr (Str ''Ho'')"
    by (simp add: recover_def fresh_result_def updateContext_def clearCache_def spread_def
        namespace_def obj_get_def)
  finally show ?thesis using before by simp
qed

section \<open>Properties of the scanners\<close>

subsection \<open>Markers\<close>

declare extractExpressions.simps [simp del]
declare scan_refs.simps [simp del]

lemma starts_with_append: "starts_with s k \<Longrightarrow> s = k @ drop (length k) s"
  using starts_with_iff by auto

lemma match_marker_Some:
  assumes "match_marker s = Some (inner, rest)"
  shows "s = ''{{'' @ inner @ ''}}'' @ rest \<and> inner \<noteq> [] \<and> CHR ''}'' \<notin> set inner"
proof -
  let ?P = "\<lambda>c. c \<noteq> CHR ''}''"
  let ?body = "drop 2 s"
  from assms have sw: "starts_with s ''{{''"
    and inner: "inner = takeWhile ?P ?body" "inner \<noteq> []"
    and close: "starts_with (dropWhile ?P ?body) ''}}''"
    and rest: "rest = drop 2 (dropWhile ?P ?body)"
    by (auto simp: match_marker_def Let_def split: if_splits)
  from sw have s: "s = ''{{'' @ ?body"
    using starts_with_append[of s "''{{''"] by (simp add: numeral_2_eq_2)
  from close have d: "dropWhile ?P ?body = ''}}'' @ rest"
    using starts_with_append[of "dropWhile ?P ?body" "''}}''"] rest by (simp add: numeral_2_eq_2)
  have "?body = inner @ dropWhile ?P ?body" unfolding inner by simp
  then have "?body = inner @ ''}}'' @ rest" using d by simp
  then have "s = ''{{'' @ inner @ ''}}'' @ rest" using s by metis
  moreover have "CHR ''}'' \<notin> set inner"
    unfolding inner using set_takeWhileD by fastforce
  ultimately show ?thesis using inner(2) by blast
qed

lemma find_marker_Some:
  "find_marker s = Some (inner, rest) \<Longrightarrow>
   \<exists>u. s = u @ ''{{'' @ inner @ ''}}'' @ rest \<and> inner \<noteq> [] \<and> CHR ''}'' \<notin> set inner"
proof (induction s)
  case Nil
  then show ?case by simp
next
  case (Cons c cs)
  show ?case
  proof (cases "match_marker (c # cs)")
    case None
    then have "find_marker cs = Some (inner, rest)" using Cons.prems by simp
    then obtain u where "cs = u @ ''{{'' @ inner @ ''}}'' @ rest" "inner \<noteq> []" "CHR ''}'' \<notin> set inner"
      using Cons.IH by blast
    then have "c # cs = (c # u) @ ''{{'' @ inner @ ''}}'' @ rest \<and> inner \<noteq> [] \<and> CHR ''}'' \<notin> set inner"
      by simp
    then show ?thesis by blast
  next
    case (Some m)
    then have "match_marker (c # cs) = Some (inner, rest)" using Cons.prems by simp
    from match_marker_Some[OF this]
    have "c # cs = [] @ ''{{'' @ inner @ ''}}'' @ rest \<and> inner \<noteq> [] \<and> CHR ''}'' \<notin> set inner"
      by simp
    then show ?thesis by blast
  qed
qed

lemma rev_split_while: "xs = rev (dropWhile P (rev xs)) @ rev (takeWhile P (rev xs))"
  by (metis rev_append rev_rev_ident takeWhile_dropWhile_id)

lemma trim_parts:
  "\<exists>a b. s = a @ trim s @ b \<and> (\<forall>c\<in>set a. is_space c) \<and> (\<forall>c\<in>set b. is_space c)"
proof -
  let ?a = "takeWhile is_space s"
  let ?s' = "dropWhile is_space s"
  let ?b = "rev (takeWhile is_space (rev ?s'))"
  have "?s' = trim s @ ?b" unfolding trim_def by (rule rev_split_while)
  moreover have "s = ?a @ ?s'" by simp
  ultimately have "s = ?a @ trim s @ ?b" by simp
  moreover have "\<forall>c\<in>set ?a. is_space c" using set_takeWhileD by fastforce
  moreover have "\<forall>c\<in>set ?b. is_space c" using set_takeWhileD by fastforce
  ultimately show ?thesis by blast
qed

lemma trim_ends:
  assumes "trim s \<noteq> []"
  shows "\<not> is_space (hd (trim s)) \<and> \<not> is_space (last (trim s))"
proof -
  let ?s' = "dropWhile is_space s"
  let ?d = "dropWhile is_space (rev ?s')"
  have t: "trim s = rev ?d" by (simp add: trim_def)
  with assms have d: "?d \<noteq> []" by simp
  then have "\<not> is_space (hd ?d)" by (rule hd_dropWhile)
  then have l: "\<not> is_space (last (trim s))" using t d by (simp add: last_rev)
  have s': "?s' \<noteq> []"
  proof
    assume "?s' = []"
    then have "rev ?s' = []" by (simp only: rev.simps)
    then have "?d = []" by (simp only: dropWhile.simps)
    with d show False by blast
  qed
  then have h: "\<not> is_space (hd ?s')" by (rule hd_dropWhile)
  have "?s' = trim s @ rev (takeWhile is_space (rev ?s'))"
    unfolding trim_def by (rule rev_split_while)
  then have "hd ?s' = hd (trim s)" using assms by (metis hd_append2)
  with h l show ?thesis by simp
qed

lemma extractExpressions_markers:
  "x \<in> set (extractExpressions src) \<Longrightarrow>
   \<exists>u inner v. src = u @ ''{{'' @ inner @ ''}}'' @ v \<and> inner \<noteq> [] \<and> CHR ''}'' \<notin> set inner \<and>
     x = trim inner"
proof (induction src rule: extractExpressions.induct)
  case (1 src)
  show ?case
  proof (cases "find_marker src")
    case None
    then show ?thesis using "1.prems" by (simp add: extractExpressions.simps)
  next
    case (Some m)
    obtain inner rest where m: "m = (inner, rest)" by (cases m)
    with Some have f: "find_marker src = Some (inner, rest)" by simp
    then obtain u where u: "src = u @ ''{{'' @ inner @ ''}}'' @ rest" "inner \<noteq> []" "CHR ''}'' \<notin> set inner"
      using find_marker_Some by blast
    from "1.prems" f have "x = trim inner \<or> x \<in> set (extractExpressions rest)"
      by (simp add: extractExpressions.simps[of src])
    then show ?thesis
    proof
      assume "x = trim inner"
      with u show ?thesis by blast
    next
      assume "x \<in> set (extractExpressions rest)"
      from "1.IH"[OF f refl this] obtain u' inner' v' where
        r: "rest = u' @ ''{{'' @ inner' @ ''}}'' @ v'" "inner' \<noteq> []" "CHR ''}'' \<notin> set inner'" "x = trim inner'"
        by blast
      have "src = (u @ ''{{'' @ inner @ ''}}'' @ u') @ ''{{'' @ inner' @ ''}}'' @ v'"
        using u(1) r(1) by simp
      with r show ?thesis by blast
    qed
  qed
qed

text \<open>
  Claim C10. \<open>hasExpression\<close> holds of a text exactly when \<open>extractExpressions\<close> returns
  a non-empty list for it. Every element of that list comes from a marker of the text:
  two opening braces, a non-empty inner source without a closing brace, two closing
  braces; the element is the inner source without the white space at its two ends, so it
  neither starts nor ends with white space (it may be empty).
\<close>

theorem hasExpression_iff_extractExpressions:
  "(hasExpression text \<longleftrightarrow> extractExpressions text \<noteq> []) \<and>
   (\<forall>x\<in>set (extractExpressions text).
      \<exists>u inner v a b.
        text = u @ ''{{'' @ inner @ ''}}'' @ v \<and> inner \<noteq> [] \<and> CHR ''}'' \<notin> set inner \<and>
        x = trim inner \<and>
        inner = a @ x @ b \<and> (\<forall>c\<in>set a. is_space c) \<and> (\<forall>c\<in>set b. is_space c) \<and>
        (x \<noteq> [] \<longrightarrow> \<not> is_space (hd x) \<and> \<not> is_space (last x)))"
proof
  show "hasExpression text \<longleftrightarrow> extractExpressions text \<noteq> []"
    by (cases "find_marker text") (auto simp: hasExpression_def extractExpressions.simps[of "text"])
next
  show "\<forall>x\<in>set (extractExpressions text).
      \<exists>u inner v a b.
        text = u @ ''{{'' @ inner @ ''}}'' @ v \<and> inner \<noteq> [] \<and> CHR ''}'' \<notin> set inner \<and>
        x = trim inner \<and>
        inner = a @ x @ b \<and> (\<forall>c\<in>set a. is_space c) \<and> (\<forall>c\<in>set b. is_space c) \<and>
        (x \<noteq> [] \<longrightarrow> \<not> is_space (hd x) \<and> \<not> is_space (last x))"
  proof
    fix x assume "x \<in> set (extractExpressions text)"
    then obtain u inner v where m: "text = u @ ''{{'' @ inner @ ''}}'' @ v" "inner \<noteq> []"
      "CHR ''}'' \<notin> set inner" "x = trim inner"
      using extractExpressions_markers by blast
    obtain a b where p: "inner = a @ trim inner @ b" "\<forall>c\<in>set a. is_space c" "\<forall>c\<in>set b. is_space c"
      using trim_parts by blast
    have e: "x \<noteq> [] \<longrightarrow> \<not> is_space (hd x) \<and> \<not> is_space (last x)"
      using trim_ends m(4) by blast
    from m p e show "\<exists>u inner v a b.
        text = u @ ''{{'' @ inner @ ''}}'' @ v \<and> inner \<noteq> [] \<and> CHR ''}'' \<notin> set inner \<and>
        x = trim inner \<and>
        inner = a @ x @ b \<and> (\<forall>c\<in>set a. is_space c) \<and> (\<forall>c\<in>set b. is_space c) \<and>
        (x \<noteq> [] \<longrightarrow> \<not> is_space (hd x) \<and> \<not> is_space (last x))"
      by blast
  qed
qed


lemma extract_example: "extractExpressions ''a {{ x }} b'' = [''x'']"
  by (simp add: extractExpressions.simps match_marker_def trim_def is_space_def)

theorem hasExpression_iff_extractExpressions_witness:
  "hasExpression ''a {{ x }} b'' \<and> extractExpressions ''a {{ x }} b'' = [''x'']"
  using hasExpression_iff_extractExpressions[of "''a {{ x }} b''"] extract_example by simp

subsection \<open>Dependencies\<close>

lemma distinct_foldl_Set_add: "distinct acc \<Longrightarrow> distinct (foldl Set_add acc xs)"
  by (induction xs arbitrary: acc) (auto simp: Set_add_def)

lemma set_foldl_Set_add: "set (foldl Set_add acc xs) = set acc \<union> set xs"
  by (induction xs arbitrary: acc) (auto simp: Set_add_def)

lemma foldl_Set_add_disjoint:
  "set ys \<inter> set acc = {} \<Longrightarrow> foldl Set_add (acc @ b) ys = acc @ foldl Set_add b ys"
proof (induction ys arbitrary: b)
  case Nil
  then show ?case by simp
next
  case (Cons y ys)
  then have y: "y \<notin> set acc" and ys: "set ys \<inter> set acc = {}" by auto
  have "Set_add (acc @ b) y = acc @ Set_add b y" using y by (simp add: Set_add_def)
  then show ?case using Cons.IH[OF ys] by simp
qed

lemma distinct_new_Set: "distinct (new_Set xs)"
  by (simp add: new_Set_def distinct_foldl_Set_add)

lemma set_new_Set: "set (new_Set xs) = set xs"
  by (simp add: new_Set_def set_foldl_Set_add)

lemma new_Set_snoc: "new_Set (xs @ [x]) = (if x \<in> set xs then new_Set xs else new_Set xs @ [x])"
  by (simp add: new_Set_def Set_add_def set_foldl_Set_add)

lemma new_Set_append_disjoint:
  assumes "set xs \<inter> set ys = {}"
  shows "new_Set (xs @ ys) = new_Set xs @ new_Set ys"
proof -
  have "set ys \<inter> set (new_Set xs) = {}" using assms by (auto simp: set_new_Set)
  from foldl_Set_add_disjoint[OF this, of "[]"] show ?thesis by (simp add: new_Set_def)
qed

lemma match_ref_Some:
  assumes "match_ref p s = Some (w, rest)"
  shows "s = p @ w @ rest \<and> w \<noteq> [] \<and> (\<forall>c\<in>set w. is_word c)"
proof -
  let ?r = "drop (length p) s"
  from assms have sw: "starts_with s p" and w: "w = takeWhile is_word ?r" "w \<noteq> []"
    and rest: "rest = dropWhile is_word ?r"
    by (auto simp: match_ref_def Let_def split: if_splits)
  have "?r = w @ rest" unfolding w rest by simp
  moreover have "s = p @ ?r" using sw by (rule starts_with_append)
  ultimately have "s = p @ w @ rest" by simp
  moreover have "\<forall>c\<in>set w. is_word c" unfolding w using set_takeWhileD by fastforce
  ultimately show ?thesis using w(2) by blast
qed

lemma match_ref_at:
  assumes "w \<noteq> []" and "\<forall>c\<in>set w. is_word c" and "v = [] \<or> \<not> is_word (hd v)"
  shows "match_ref p (p @ w @ v) = Some (w, v)"
proof -
  have sw: "starts_with (p @ w @ v) p" using starts_with_iff by blast
  have tv: "takeWhile is_word v = []" using assms(3) by (cases v) auto
  have dv: "dropWhile is_word v = v" using assms(3) by (cases v) auto
  have "takeWhile is_word (w @ v) = w" using assms(2) tv by simp
  moreover have "dropWhile is_word (w @ v) = v" using assms(2) dv by simp
  ultimately show ?thesis using sw assms(1) by (simp add: match_ref_def)
qed

lemma find_ref_Some:
  "find_ref p s = Some (w, rest) \<Longrightarrow>
   \<exists>a. s = a @ p @ w @ rest \<and> w \<noteq> [] \<and> (\<forall>c\<in>set w. is_word c)"
proof (induction s)
  case Nil
  then show ?case by simp
next
  case (Cons c cs)
  show ?case
  proof (cases "match_ref p (c # cs)")
    case None
    then have "find_ref p cs = Some (w, rest)" using Cons.prems by simp
    then obtain a where "cs = a @ p @ w @ rest" "w \<noteq> []" "\<forall>c\<in>set w. is_word c"
      using Cons.IH by blast
    then have "c # cs = (c # a) @ p @ w @ rest \<and> w \<noteq> [] \<and> (\<forall>c\<in>set w. is_word c)" by simp
    then show ?thesis by blast
  next
    case (Some m)
    then have "match_ref p (c # cs) = Some (w, rest)" using Cons.prems by simp
    from match_ref_Some[OF this]
    have "c # cs = [] @ p @ w @ rest \<and> w \<noteq> [] \<and> (\<forall>c\<in>set w. is_word c)" by simp
    then show ?thesis by blast
  qed
qed

lemma scan_refs_form:
  "d \<in> set (scan_refs p s) \<Longrightarrow> \<exists>w. d = p @ w \<and> w \<noteq> [] \<and> (\<forall>c\<in>set w. is_word c)"
proof (induction p s rule: scan_refs.induct)
  case (1 p s)
  show ?case
  proof (cases "find_ref p s")
    case None
    then show ?thesis using "1.prems" by (simp add: scan_refs.simps[of p s])
  next
    case (Some m)
    obtain w rest where m: "m = (w, rest)" by (cases m)
    with Some have f: "find_ref p s = Some (w, rest)" by simp
    from "1.prems" f have "d = p @ w \<or> d \<in> set (scan_refs p rest)"
      by (simp add: scan_refs.simps[of p s])
    then show ?thesis
    proof
      assume "d = p @ w"
      then show ?thesis using find_ref_Some[OF f] by blast
    next
      assume "d \<in> set (scan_refs p rest)"
      from "1.IH"[OF f refl this] show ?thesis .
    qed
  qed
qed

lemma scan_refs_in_order:
  "\<exists>gaps rest. length gaps = length (scan_refs p s) \<and>
     s = concat (map (\<lambda>(g, d). g @ d) (zip gaps (scan_refs p s))) @ rest"
proof (induction p s rule: scan_refs.induct)
  case (1 p s)
  show ?case
  proof (cases "find_ref p s")
    case None
    then have "scan_refs p s = []" by (simp add: scan_refs.simps[of p s])
    then have "length [] = length (scan_refs p s) \<and>
        s = concat (map (\<lambda>(g, d). g @ d) (zip [] (scan_refs p s))) @ s" by simp
    then show ?thesis by blast
  next
    case (Some m)
    obtain w r where m: "m = (w, r)" by (cases m)
    with Some have f: "find_ref p s = Some (w, r)" by simp
    then have sc: "scan_refs p s = (p @ w) # scan_refs p r" by (simp add: scan_refs.simps[of p s])
    from find_ref_Some[OF f] obtain a where a: "s = a @ p @ w @ r" by blast
    from "1.IH"[OF f refl] obtain gaps rest where
      g: "length gaps = length (scan_refs p r)"
         "r = concat (map (\<lambda>(g, d). g @ d) (zip gaps (scan_refs p r))) @ rest"
      by blast
    have "length (a # gaps) = length (scan_refs p s)" using g(1) sc by simp
    moreover have "s = concat (map (\<lambda>(g, d). g @ d) (zip (a # gaps) (scan_refs p s))) @ rest"
      using a g(2) sc by simp
    ultimately show ?thesis by blast
  qed
qed

lemma find_ref_first:
  assumes "w \<noteq> []" and "\<forall>c\<in>set w. is_word c" and "v = [] \<or> \<not> is_word (hd v)"
    and "\<forall>c\<in>set p. is_ref_char c"
    and "u = [] \<or> \<not> is_ref_char (last u)"
  shows "\<exists>w' rest. find_ref p (u @ p @ w @ v) = Some (w', rest) \<and>
           ((w' = w \<and> rest = v) \<or>
            (\<exists>u'. rest = u' @ p @ w @ v \<and> (u' = [] \<or> \<not> is_ref_char (last u'))))"
  using assms(5)
proof (induction u)
  case Nil
  have m: "match_ref p (p @ w @ v) = Some (w, v)" using assms(1-3) by (rule match_ref_at)
  obtain c cs where s: "p @ w @ v = c # cs" using assms(1) by (cases "p @ w @ v") auto
  then have "find_ref p (p @ w @ v) = Some (w, v)" using m by simp
  then show ?case by simp
next
  case (Cons c u)
  let ?s = "(c # u) @ p @ w @ v"
  show ?case
  proof (cases "match_ref p ?s")
    case None
    have b: "u = [] \<or> \<not> is_ref_char (last u)" using Cons.prems by (cases u) auto
    have "find_ref p ?s = find_ref p (u @ p @ w @ v)" using None by simp
    then show ?thesis using Cons.IH[OF b] by simp
  next
    case (Some m)
    obtain w' rest where m: "m = (w', rest)" by (cases m)
    with Some have mr: "match_ref p ?s = Some (w', rest)" by simp
    then have f: "find_ref p ?s = Some (w', rest)" by simp
    from match_ref_Some[OF mr] have eq: "(p @ w') @ rest = (c # u) @ (p @ w @ v)"
      and w': "\<forall>c\<in>set w'. is_word c" by auto
    have ref: "\<forall>x\<in>set (p @ w'). is_ref_char x" using assms(4) w' by (auto simp: is_ref_char_def)
    have last: "\<not> is_ref_char (last (c # u))" using Cons.prems by simp
    from eq obtain us where
      "(p @ w' = (c # u) @ us \<and> us @ rest = p @ w @ v) \<or> ((p @ w') @ us = c # u \<and> rest = us @ p @ w @ v)"
      unfolding append_eq_append_conv2 by blast
    then show ?thesis
    proof
      assume "p @ w' = (c # u) @ us \<and> us @ rest = p @ w @ v"
      then have "last (c # u) \<in> set (p @ w')" by (metis last_in_set list.distinct(1) set_append UnI1)
      with ref last show ?thesis by blast
    next
      assume h: "(p @ w') @ us = c # u \<and> rest = us @ p @ w @ v"
      have "us = [] \<or> \<not> is_ref_char (last us)"
      proof (cases "us = []")
        case True
        then show ?thesis by simp
      next
        case False
        then have "last us = last (c # u)" using h by (metis last_appendR)
        with last show ?thesis by simp
      qed
      with h f show ?thesis by blast
    qed
  qed
qed

lemma scan_refs_complete:
  "\<lbrakk>s = u @ p @ w @ v; u = [] \<or> \<not> is_ref_char (last u); w \<noteq> []; \<forall>c\<in>set w. is_word c;
    v = [] \<or> \<not> is_word (hd v); \<forall>c\<in>set p. is_ref_char c\<rbrakk>
   \<Longrightarrow> p @ w \<in> set (scan_refs p s)"
proof (induction p s arbitrary: u rule: scan_refs.induct)
  case (1 p s)
  from find_ref_first[OF "1.prems"(3,4,5,6,2)] obtain w' rest where
    f: "find_ref p (u @ p @ w @ v) = Some (w', rest)" and
    c: "(w' = w \<and> rest = v) \<or>
        (\<exists>u'. rest = u' @ p @ w @ v \<and> (u' = [] \<or> \<not> is_ref_char (last u')))"
    by blast
  from f have f': "find_ref p s = Some (w', rest)" using "1.prems"(1) by simp
  then have sc: "scan_refs p s = (p @ w') # scan_refs p rest"
    by (simp add: scan_refs.simps[of p s])
  from c show ?case
  proof
    assume "w' = w \<and> rest = v"
    then show ?thesis using sc by simp
  next
    assume "\<exists>u'. rest = u' @ p @ w @ v \<and> (u' = [] \<or> \<not> is_ref_char (last u'))"
    then obtain u' where u': "rest = u' @ p @ w @ v" "u' = [] \<or> \<not> is_ref_char (last u')"
      by blast
    from "1.IH"[OF f' refl u' "1.prems"(3-6)] have "p @ w \<in> set (scan_refs p rest)" .
    then show ?thesis using sc by simp
  qed
qed

lemma scan_refs_hd:
  assumes "p \<noteq> []" and "d \<in> set (scan_refs p s)"
  shows "hd d = hd p"
  using scan_refs_form[OF assms(2)] assms(1) by auto

lemma getDependencies_groups:
  "getDependencies e =
     new_Set (scan_refs ''widgets.'' e) @ new_Set (scan_refs ''actions.'' e) @
     new_Set (scan_refs ''page.'' e)"
proof -
  let ?W = "scan_refs ''widgets.'' e" and ?A = "scan_refs ''actions.'' e" and ?P = "scan_refs ''page.'' e"
  have hW: "\<forall>d\<in>set ?W. hd d = CHR ''w''" using scan_refs_hd[of "''widgets.''"] by auto
  have hA: "\<forall>d\<in>set ?A. hd d = CHR ''a''" using scan_refs_hd[of "''actions.''"] by auto
  have hP: "\<forall>d\<in>set ?P. hd d = CHR ''p''" using scan_refs_hd[of "''page.''"] by auto
  have 1: "set ?W \<inter> set (?A @ ?P) = {}" using hW hA hP by auto
  have 2: "set ?A \<inter> set ?P = {}" using hA hP by auto
  show ?thesis
    unfolding getDependencies_def
    using new_Set_append_disjoint[OF 1] new_Set_append_disjoint[OF 2] by simp
qed

lemma prefixes_ref_chars:
  "p \<in> set [''widgets.'', ''actions.'', ''page.''] \<Longrightarrow> \<forall>c\<in>set p. is_ref_char c"
  by (auto simp: is_ref_char_def is_word_def)

lemma scan_example:
  "scan_refs ''widgets.'' ''widgets.a.value + widgets.b.value'' = [''widgets.a'', ''widgets.b'']"
  "scan_refs ''actions.'' ''widgets.a.value + widgets.b.value'' = []"
  "scan_refs ''page.'' ''widgets.a.value + widgets.b.value'' = []"
  by (simp_all add: scan_refs.simps match_ref_def is_word_def)

lemma scan_example2:
  "scan_refs ''widgets.'' ''page.x + widgets.a'' = [''widgets.a'']"
  "scan_refs ''actions.'' ''page.x + widgets.a'' = []"
  "scan_refs ''page.'' ''page.x + widgets.a'' = [''page.x'']"
  by (simp_all add: scan_refs.simps match_ref_def is_word_def)

text \<open>
  Claim C8, as the code has it. \<open>getDependencies\<close> returns a list without duplicates. It
  is made of three groups, in this order whatever the order in the text: the matches of
  \<open>widgets.<id>\<close>, those of \<open>actions.<id>\<close>, those of \<open>page.<id>\<close>, each group holding
  its matches in the order they were first met. For each of the three patterns the
  matches are the pattern's literal part followed by a non-empty run of word characters,
  and they stand in the text one after the other, in the order of the list. Every
  reference of the text that ends where the word characters end, and that does not follow
  a word character or a dot, is in the result. For \<open>widgets.a.value + widgets.b.value\<close>
  the result is \<open>widgets.a\<close>, \<open>widgets.b\<close>.
\<close>

theorem getDependencies_by_namespace:
  "distinct (getDependencies e) \<and>
   getDependencies e =
     new_Set (scan_refs ''widgets.'' e) @ new_Set (scan_refs ''actions.'' e) @
     new_Set (scan_refs ''page.'' e) \<and>
   (\<forall>p\<in>set [''widgets.'', ''actions.'', ''page.''].
      (\<forall>d\<in>set (scan_refs p e). \<exists>w. d = p @ w \<and> w \<noteq> [] \<and> (\<forall>c\<in>set w. is_word c)) \<and>
      (\<exists>gaps rest. length gaps = length (scan_refs p e) \<and>
         e = concat (map (\<lambda>(g, d). g @ d) (zip gaps (scan_refs p e))) @ rest) \<and>
      (\<forall>u w v. e = u @ p @ w @ v \<and> w \<noteq> [] \<and> (\<forall>c\<in>set w. is_word c) \<and>
         (v = [] \<or> \<not> is_word (hd v)) \<and> (u = [] \<or> \<not> is_ref_char (last u)) \<longrightarrow>
         p @ w \<in> set (getDependencies e))) \<and>
   getDependencies ''widgets.a.value + widgets.b.value'' = [''widgets.a'', ''widgets.b'']"
proof -
  have d: "distinct (getDependencies e)" by (simp add: getDependencies_def distinct_new_Set)
  have s: "set (getDependencies e) =
      set (scan_refs ''widgets.'' e) \<union> set (scan_refs ''actions.'' e) \<union> set (scan_refs ''page.'' e)"
    by (auto simp: getDependencies_def set_new_Set)
  have c: "p @ w \<in> set (getDependencies e)"
    if "p \<in> set [''widgets.'', ''actions.'', ''page.'']" and "e = u @ p @ w @ v" and "w \<noteq> []"
      and "\<forall>c\<in>set w. is_word c" and "v = [] \<or> \<not> is_word (hd v)"
      and "u = [] \<or> \<not> is_ref_char (last u)" for p u w v
  proof -
    have "p @ w \<in> set (scan_refs p e)"
      using scan_refs_complete[OF that(2) that(6) that(3,4,5) prefixes_ref_chars[OF that(1)]] .
    then show ?thesis using that(1) s by auto
  qed
  have ex: "getDependencies ''widgets.a.value + widgets.b.value'' = [''widgets.a'', ''widgets.b'']"
    by (simp add: getDependencies_def scan_example new_Set_def Set_add_def)
  show ?thesis
    using d getDependencies_groups[of e] scan_refs_form scan_refs_in_order c ex by (intro conjI ballI) blast+
qed


text \<open>
  The claim asks for the order of first occurrence in the text. In \<open>page.x + widgets.a\<close>
  the page reference comes first, and the result has it last.
\<close>

theorem getDependencies_text_order_counterexample:
  "getDependencies ''page.x + widgets.a'' = [''widgets.a'', ''page.x''] \<and>
   getDependencies ''page.x + widgets.a'' \<noteq> [''page.x'', ''widgets.a'']"
  by (simp add: getDependencies_def scan_example2 new_Set_def Set_add_def)


theorem getDependencies_by_namespace_witness:
  "''actions.save'' \<in> set (getDependencies ''store.n + actions.save.data'') \<and>
   distinct (getDependencies ''store.n + actions.save.data'')"
proof -
  have e: "''store.n + actions.save.data'' = ''store.n + '' @ ''actions.'' @ ''save'' @ ''.data'' \<and>
        ''save'' \<noteq> [] \<and> (\<forall>c\<in>set ''save''. is_word c) \<and>
        (''.data'' = [] \<or> \<not> is_word (hd ''.data'')) \<and>
        (''store.n + '' = [] \<or> \<not> is_ref_char (last ''store.n + ''))"
    by (simp add: is_word_def is_ref_char_def)
  have p: "''actions.'' \<in> set [''widgets.'', ''actions.'', ''page.'']" by simp
  from getDependencies_by_namespace[of "''store.n + actions.save.data''"] p e
  have "''actions.'' @ ''save'' \<in> set (getDependencies ''store.n + actions.save.data'')"
    by blast
  moreover from getDependencies_by_namespace[of "''store.n + actions.save.data''"]
  have "distinct (getDependencies ''store.n + actions.save.data'')" by blast
  ultimately show ?thesis by simp
qed

section \<open>Properties of the action manager\<close>

subsection \<open>Listeners and executors\<close>

lemma run_calls_append: "run_calls (xs @ ys) = run_calls xs @ run_calls ys"
  by (induction xs rule: run_calls.induct) auto


lemma call_listeners_quiet:
  "\<forall>l\<in>set ls. listener_fn h l r = None \<Longrightarrow>
   call_listeners h ls r evs = (None, evs @ map (\<lambda>l. ListenerCalled l r) ls)"
  by (induction ls arbitrary: evs) auto

lemma notifyListeners_quiet:
  assumes "\<forall>l\<in>set (listeners_of s actionId). listener_fn h l r = None"
  shows "notifyListeners h s actionId r =
           (None, s\<lparr> events := events s @ map (\<lambda>l. ListenerCalled l r) (listeners_of s actionId) \<rparr>)"
proof (cases "listeners s actionId")
  case None
  then show ?thesis by (simp add: notifyListeners_def listeners_of_def)
next
  case (Some ls)
  with assms have "\<forall>l\<in>set ls. listener_fn h l r = None" by (simp add: listeners_of_def)
  from call_listeners_quiet[OF this] Some show ?thesis
    by (simp add: notifyListeners_def listeners_of_def)
qed

lemma executeUpdateWidgetAction_frame:
  "executeUpdateWidgetAction h s a p = (r, s1) \<Longrightarrow>
   listeners s1 = listeners s \<and> am_actions s1 = am_actions s \<and> results s1 = results s \<and>
   run_calls (events s1) = run_calls (events s)"
  by (auto simp: executeUpdateWidgetAction_def Let_def run_calls_append
      split: sum.splits prod.splits option.splits)

lemma executeModalAction_frame:
  "executeModalAction h s a m = (r, s1) \<Longrightarrow>
   listeners s1 = listeners s \<and> am_actions s1 = am_actions s \<and> results s1 = results s \<and>
   run_calls (events s1) = run_calls (events s)"
  by (auto simp: executeModalAction_def Let_def run_calls_append split: option.splits)

lemma executeLocalStorageAction_frame:
  "executeLocalStorageAction h s a p = (r, s1) \<Longrightarrow>
   listeners s1 = listeners s \<and> am_actions s1 = am_actions s \<and> results s1 = results s \<and>
   run_calls (events s1) = run_calls (events s)"
  by (auto simp: executeLocalStorageAction_def Let_def split: option.splits sum.splits if_splits)

lemma executeRunJSAction_frame:
  "executeRunJSAction h s a p = (r, s1) \<Longrightarrow>
   listeners s1 = listeners s \<and> am_actions s1 = am_actions s \<and> results s1 = results s \<and>
   run_calls (events s1) = run_calls (events s)"
  by (auto simp: executeRunJSAction_def Let_def split: sum.splits prod.splits)

lemma executeBrowserAction_frame:
  "executeBrowserAction h s a p = (r, s1) \<Longrightarrow>
   listeners s1 = listeners s \<and> am_actions s1 = am_actions s \<and> results s1 = results s \<and>
   run_calls (events s1) = run_calls (events s)"
  by (auto simp: executeBrowserAction_def split: prod.splits)

lemma executeAction_frame:
  "executeAction h s a p = (r, s1) \<Longrightarrow>
   listeners s1 = listeners s \<and> am_actions s1 = am_actions s \<and> results s1 = results s \<and>
   run_calls (events s1) = run_calls (events s)"
  unfolding executeAction_def
  by (cases "action_type a")
     (simp_all add: executeUpdateWidgetAction_frame executeModalAction_frame
        executeLocalStorageAction_frame executeRunJSAction_frame executeBrowserAction_frame)

lemma listeners_of_events [simp]: "listeners_of (s\<lparr> events := evs \<rparr>) a = listeners_of s a"
  by (simp add: listeners_of_def)

lemma listeners_of_results [simp]: "listeners_of (s\<lparr> results := rs \<rparr>) a = listeners_of s a"
  by (simp add: listeners_of_def)





subsection \<open>The sample manager, evaluated\<close>

lemma sample_manager_fields:
  "am_actions sample_manager ''missing'' = None"
  "am_actions sample_manager ''purge'' =
     Some \<lparr> action_id = ''purge'', action_type = LocalStorage, config = [(''operation'', Str ''purge'')] \<rparr>"
  "am_actions sample_manager ''greet'' =
     Some \<lparr> action_id = ''greet'', action_type = UpdateWidget,
            config = [(''widgetId'', Str ''w1''),
                      (''updates'', Obj [(''label'', Str ''{{ widgets.input1.value }}'')])] \<rparr>"
  "listeners sample_manager ''missing'' = None"
  "listeners sample_manager ''purge'' = Some [7]"
  "listeners sample_manager ''greet'' = None"
  "results sample_manager = Map.empty"
  "events sample_manager = []"
  "expressionEngine sample_manager = sample_engine"
  by (simp_all add: sample_manager_def addListener_def onWidgetUpdate_def registerAction_def
      new_manager_def Set_add_def)


lemma marker_has_expression: "expression_text (Str ''{{ widgets.input1.value }}'') = Some ''{{ widgets.input1.value }}''"
  by (simp add: expression_text_def hasExpression_def match_marker_def)

lemma marker_passes: "sanitizeExpression ''{{ widgets.input1.value }}'' = Inr ''{{ widgets.input1.value }}''"
  by (simp add: sanitizeExpression_def forbidden_def)

lemma marker_rejected: "sample_js ''{{ widgets.input1.value }}'' = Inl (JsError ''SyntaxError'')"
  by (simp add: sample_js_def trim_def is_space_def is_identifier_def is_word_def)

lemma label_with_marker:
  assumes "js ''{{ widgets.input1.value }}'' = Inl err"
    and "cache eng ''{{ widgets.input1.value }}'' = None"
  shows "evaluate_updates js eng [(''label'', Str ''{{ widgets.input1.value }}'')] [] =
           (Inr [(''label'', Undefined)], eng\<lparr> js_log := js_log eng @ [''{{ widgets.input1.value }}''] \<rparr>)"
proof -
  have "evaluate js eng ''{{ widgets.input1.value }}'' False =
      (Inr Undefined, eng\<lparr> js_log := js_log eng @ [''{{ widgets.input1.value }}''] \<rparr>)"
    using evaluate_syntax_error[where js = js and s = eng and e = "''{{ widgets.input1.value }}''"
        and err = err and t = False] assms marker_passes by simp
  then show ?thesis by (simp add: marker_has_expression obj_set_def)
qed

lemma greet_executes:
  "executeAction sample_host (sample_manager\<lparr> events := events sample_manager @ [RunCalled ''greet''] \<rparr>)
     \<lparr> action_id = ''greet'', action_type = UpdateWidget,
       config = [(''widgetId'', Str ''w1''),
                 (''updates'', Obj [(''label'', Str ''{{ widgets.input1.value }}'')])] \<rparr>
     Undefined =
   (Inr \<lparr> success = True,
          data = Some (Obj [(''widgetId'', Str ''w1''), (''updates'', Obj [(''label'', Undefined)])]),
          error = None \<rparr>,
    sample_manager\<lparr> events := [RunCalled ''greet'',
                                 WidgetUpdateCalled (Str ''w1'') (Obj [(''label'', Undefined)])],
                    expressionEngine := sample_engine\<lparr> js_log := [''{{ widgets.input1.value }}''] \<rparr> \<rparr>)"
proof -
  have l: "evaluate_updates sample_js sample_engine [(''label'', Str ''{{ widgets.input1.value }}'')] [] =
           (Inr [(''label'', Undefined)], sample_engine\<lparr> js_log := [''{{ widgets.input1.value }}''] \<rparr>)"
    using label_with_marker[where js = sample_js and eng = sample_engine
        and err = "JsError ''SyntaxError''"] marker_rejected
    by (simp add: sample_engine_fields)
  have cb: "widgetUpdateCallback sample_manager = Some (\<lambda>widgetId updates. None)"
    by (simp add: sample_manager_def addListener_def onWidgetUpdate_def)
  show ?thesis
    by (simp add: executeAction_def executeUpdateWidgetAction_def obj_get_def Object_entries_def
        sample_host_def sample_manager_fields l cb Let_def del: evaluate_updates.simps)
qed

subsection \<open>run\<close>


lemma run_registered:
  assumes reg: "am_actions s actionId = Some action"
    and quiet: "\<forall>l\<in>set (listeners_of s actionId). \<forall>r. listener_fn h l r = None"
    and ex: "executeAction h (s\<lparr> events := events s @ [RunCalled actionId] \<rparr>) action params = (out, s1)"
  shows "run h s actionId params =
           (Inr (case out of Inl e \<Rightarrow> failure e | Inr r \<Rightarrow> r),
            s1\<lparr> results := (results s1)(actionId \<mapsto> (case out of Inl e \<Rightarrow> failure e | Inr r \<Rightarrow> r)),
                events := events s1 @
                  map (\<lambda>l. ListenerCalled l (case out of Inl e \<Rightarrow> failure e | Inr r \<Rightarrow> r))
                    (listeners_of s actionId) \<rparr>)"
proof -
  let ?s0 = "s\<lparr> events := events s @ [RunCalled actionId] \<rparr>"
  let ?r = "case out of Inl e \<Rightarrow> failure e | Inr r \<Rightarrow> r"
  from executeAction_frame[OF ex] have "listeners s1 = listeners ?s0" by simp
  then have lo: "listeners_of s1 actionId = listeners_of s actionId" by (simp add: listeners_of_def)
  let ?s2 = "s1\<lparr> results := (results s1)(actionId \<mapsto> ?r) \<rparr>"
  have "\<forall>l\<in>set (listeners_of ?s2 actionId). listener_fn h l ?r = None"
    using quiet lo by simp
  from notifyListeners_quiet[OF this]
  have n: "notifyListeners h ?s2 actionId ?r =
      (None, ?s2\<lparr> events := events s1 @ map (\<lambda>l. ListenerCalled l ?r) (listeners_of s actionId) \<rparr>)"
    using lo by simp
  have reg0: "am_actions ?s0 actionId = Some action" using reg by simp
  show ?thesis
  proof (cases out)
    case (Inl e)
    then have t: "run_try h ?s0 action actionId params = (Inl e, s1)"
      using ex by (simp add: run_try_def)
    show ?thesis using reg0 t n Inl by (simp add: run_def Let_def run_catch_def failure_def)
  next
    case (Inr r)
    then have t: "run_try h ?s0 action actionId params =
        (Inr r, ?s2\<lparr> events := events s1 @ map (\<lambda>l. ListenerCalled l ?r) (listeners_of s actionId) \<rparr>)"
      using ex n by (simp add: run_try_def)
    show ?thesis using reg0 t Inr by (simp add: run_def Let_def)
  qed
qed






text \<open>
  Claim C2, at a failing input. On the sample manager no action \<open>missing\<close> is
  registered. \<open>run\<close> returns the failure \<open>Action not found: missing\<close>, and afterwards
  \<open>getResult\<close> has nothing for \<open>missing\<close>: the branch for a missing definition calls
  the listeners and returns, and does not write \<open>results\<close> as the two other branches of
  \<open>run\<close> do.
\<close>

theorem run_not_found_not_stored:
  "fst (run sample_host sample_manager ''missing'' Undefined) =
     Inr \<lparr> success = False, data = None, error = Some ''Action not found: missing'' \<rparr> \<and>
   getResult (snd (run sample_host sample_manager ''missing'' Undefined)) ''missing'' = None"
  by (simp add: run_def Let_def notifyListeners_def getResult_def sample_manager_fields)





text \<open>
  Claim C7, at a failing input. On the sample manager, \<open>widgets.input1.value\<close> is
  \<open>Hi\<close> and \<open>greet\<close> updates the label of \<open>w1\<close> with
  \<open>{{ widgets.input1.value }}\<close>. \<open>run\<close> succeeds and the callback is called for \<open>w1\<close>,
  but the label it receives is \<open>undefined\<close>: \<open>executeUpdateWidgetAction\<close> hands the
  whole field to \<open>evaluate\<close>, braces included, as the log of the engine shows, and that
  text is no expression. (\<open>label_with_marker\<close> says the same of every JavaScript engine
  that refuses the text.)
\<close>

theorem updateWidget_marker_not_resolved:
  "fst (run sample_host sample_manager ''greet'' Undefined) =
     Inr \<lparr> success = True,
           data = Some (Obj [(''widgetId'', Str ''w1''), (''updates'', Obj [(''label'', Undefined)])]),
           error = None \<rparr> \<and>
   events (snd (run sample_host sample_manager ''greet'' Undefined)) =
     [RunCalled ''greet'', WidgetUpdateCalled (Str ''w1'') (Obj [(''label'', Undefined)])] \<and>
   js_log (expressionEngine (snd (run sample_host sample_manager ''greet'' Undefined))) =
     [''{{ widgets.input1.value }}''] \<and>
   widgets (engine_context (expressionEngine sample_manager)) =
     Obj [(''input1'', Obj [(''value'', Str ''Hi'')])]"
proof -
  have q: "\<forall>l\<in>set (listeners_of sample_manager ''greet''). \<forall>r. listener_fn sample_host l r = None"
    by (simp add: sample_host_def)
  from run_registered[OF sample_manager_fields(3) q greet_executes]
  show ?thesis
    by (simp add: listeners_of_def sample_manager_fields sample_engine_fields)
qed

subsection \<open>runActionChain\<close>








end
